theory Spec2Isabelle
  imports
    Complex_Main
    "HOL-Library.Multiset"
    "HOL-Library.Char_ord"
    "HOL-Library.List_Lexorder"
    "HOL-Library.Product_Lexorder"
begin

section \<open>Home-PA scheduling: the allocation engine of suggestionLogic.py\<close>

text \<open>
  The embedding follows \<^verbatim>\<open>src/suggestionLogic.py\<close> function by function. Python floats
  are read as real numbers (exact arithmetic, no rounding, no infinities or NaN), except in
  the knapsack selector, where a rounded sum decides which suggestions are kept: there the
  float operations are explicit. Strings are byte strings, dictionaries are maps, and every
  exception the core can raise is a value of \<open>py_error\<close>. Mutable locals of a Python closure become fields of an explicit state
  record that each function takes and returns.
\<close>

subsection \<open>Constants and geometry\<close>

datatype py_error = ValueError | IndexError | ZeroDivisionError | AssertionError

type_synonym Coordinate = "real \<times> real"

definition MINUTES_PER_DISTANCE_UNIT :: real where
  "MINUTES_PER_DISTANCE_UNIT = 3"

definition MANDATORY_NEED_THRESHOLD :: real where
  "MANDATORY_NEED_THRESHOLD = 1"

definition HOME_LABEL :: string where
  "HOME_LABEL = ''home''"

definition clamp01 :: "real \<Rightarrow> real" where
  "clamp01 v = (if v < 0 then 0 else if v > 1 then 1 else v)"

definition euclidean_distance :: "Coordinate \<Rightarrow> Coordinate \<Rightarrow> real" where
  "euclidean_distance a b = sqrt ((fst a - fst b) ^ 2 + (snd a - snd b) ^ 2)"

definition travel_minutes_between :: "Coordinate \<Rightarrow> Coordinate \<Rightarrow> real \<times> real" where
  "travel_minutes_between a b =
     (let distance = euclidean_distance a b;
          minutes = distance * MINUTES_PER_DISTANCE_UNIT
      in (distance, minutes))"

subsection \<open>Location preferences\<close>

text \<open>
  \<^verbatim>\<open>str.strip\<close>, \<^verbatim>\<open>str.lower\<close> and \<^verbatim>\<open>str.replace(" ", "_")\<close> on ASCII text: the
  white space of \<^verbatim>\<open>strip\<close> is the bytes 9 to 13 and 28 to 32, and \<^verbatim>\<open>lower\<close> moves
  \<^verbatim>\<open>A-Z\<close> to \<^verbatim>\<open>a-z\<close>.
\<close>

definition is_space :: "char \<Rightarrow> bool" where
  "is_space c = (let n = (of_char c :: nat) in (9 \<le> n \<and> n \<le> 13) \<or> (28 \<le> n \<and> n \<le> 32))"

definition strip :: "string \<Rightarrow> string" where
  "strip s = rev (dropWhile is_space (rev (dropWhile is_space s)))"

definition lower_char :: "char \<Rightarrow> char" where
  "lower_char c = (let n = (of_char c :: nat) in if 65 \<le> n \<and> n \<le> 90 then char_of (n + 32) else c)"

definition lower :: "string \<Rightarrow> string" where
  "lower s = map lower_char s"

definition replace_space :: "string \<Rightarrow> string" where
  "replace_space s = map (\<lambda>c. if c = CHR '' '' then CHR ''_'' else c) s"

definition normalize_location_preference :: "string option \<Rightarrow> string option" where
  "normalize_location_preference v =
     (case v of
        None \<Rightarrow> None
      | Some s \<Rightarrow>
          (let normalized = strip s in
           if normalized = [] then None
           else if replace_space (lower normalized) = ''near_home'' then Some ''near_home''
           else Some normalized))"

subsection \<open>Data model\<close>

record Gap =
  gap_id :: string
  gap_duration :: real
  start_location :: Coordinate
  end_location :: Coordinate
  start_label :: "string option"
  end_label :: "string option"

record Suggestion =
  suggestion_id :: string
  need :: real
  importance :: real
  duration :: real
  location :: Coordinate
  location_preference :: "string option"
  score :: real
  min_duration :: real
  max_duration :: real

record ScheduledBlock =
  block_suggestion_id :: string
  block_gap_id :: string
  start_offset :: real
  block_duration :: real
  block_location :: Coordinate

record MovementLogEntry =
  from_label :: string
  to_label :: string
  distance :: real
  minutes :: real

record AllocationState =
  gap_usage :: "string \<rightharpoonup> real"
  gap_index :: nat
  current_cursor :: "Coordinate option"
  current_label :: "string option"
  gap_has_blocks :: bool

record ScheduleResult =
  ordered_suggestions :: "Suggestion list"
  scheduled_blocks :: "ScheduledBlock list"
  travel_cost :: real
  dropped_suggestions :: "Suggestion list"
  unused_gap_time :: real
  permutations_evaluated :: nat
  allocated_minutes :: "string \<rightharpoonup> real"
  movement_log :: "MovementLogEntry list"

text \<open>The constructors with their \<^verbatim>\<open>__post_init__\<close> checks.\<close>

definition Gap_init ::
  "string \<Rightarrow> real \<Rightarrow> Coordinate \<Rightarrow> Coordinate \<Rightarrow> string option \<Rightarrow> string option \<Rightarrow> py_error + Gap" where
  "Gap_init gid d sl el slab elab =
     (if d \<le> 0 then Inl ValueError
      else Inr \<lparr>gap_id = gid, gap_duration = d, start_location = sl, end_location = el,
                start_label = slab, end_label = elab\<rparr>)"

definition Suggestion_init ::
  "string \<Rightarrow> real \<Rightarrow> real \<Rightarrow> real \<Rightarrow> Coordinate \<Rightarrow> string option \<Rightarrow> py_error + Suggestion" where
  "Suggestion_init sid n imp d loc pref =
     (if d \<le> 0 then Inl ValueError
      else Inr \<lparr>suggestion_id = sid, need = n, importance = imp, duration = d, location = loc,
                location_preference = normalize_location_preference pref,
                score = clamp01 n + clamp01 imp, min_duration = d, max_duration = d\<rparr>)"

definition is_mandatory :: "real \<Rightarrow> Suggestion \<Rightarrow> bool" where
  "is_mandatory tolerance s \<longleftrightarrow> need s \<ge> MANDATORY_NEED_THRESHOLD - tolerance"

definition total_gap_minutes :: "Gap list \<Rightarrow> real" where
  "total_gap_minutes gaps = sum_list (map gap_duration gaps)"

text \<open>\<^verbatim>\<open>x or d\<close> on an optional string: \<^verbatim>\<open>None\<close> and the empty string are falsy.\<close>

definition label_or :: "string option \<Rightarrow> string \<Rightarrow> string" where
  "label_or l d = (case l of None \<Rightarrow> d | Some v \<Rightarrow> if v = [] then d else v)"

definition resolve_gap_labels :: "Gap list \<Rightarrow> (string \<rightharpoonup> string \<times> string)" where
  "resolve_gap_labels gaps =
     foldl (\<lambda>labels (idx, gap).
              labels(gap_id gap \<mapsto>
                (label_or (start_label gap) (if idx = 0 then HOME_LABEL else gap_id gap @ '':start''),
                 label_or (end_label gap)
                   (if int idx = int (length gaps) - 1 then HOME_LABEL else gap_id gap @ '':end''))))
           Map.empty (enumerate 0 gaps)"

subsection \<open>Gap placement engine\<close>

text \<open>
  The mutable locals of \<^verbatim>\<open>assign_order_to_gaps\<close> that its closures share: the five
  fields of the allocation state, the blocks placed so far and the movement log.
\<close>

record Placement = AllocationState +
  schedule :: "ScheduledBlock list"
  movement_logs :: "MovementLogEntry list"

text \<open>
  Reading the usage dictionary. Inside \<^verbatim>\<open>assign_order_to_gaps\<close> the dictionary is
  created with every gap id as a key, so \<^verbatim>\<open>gap_usage[gap.gap_id]\<close> never raises there
  (lemma \<open>usage_keys_allocate_all\<close> below); \<^verbatim>\<open>remaining_capacity\<close> reads it with
  \<^verbatim>\<open>.get(gap_id, 0.0)\<close>.
\<close>

definition usage_get :: "(string \<rightharpoonup> real) \<Rightarrow> string \<Rightarrow> real" where
  "usage_get m k = (case m k of Some v \<Rightarrow> v | None \<Rightarrow> 0)"

definition fresh_usage :: "Gap list \<Rightarrow> (string \<rightharpoonup> real)" where
  "fresh_usage gaps = map_of (map (\<lambda>gap. (gap_id gap, 0)) gaps)"

definition state_of :: "Placement \<Rightarrow> AllocationState" where
  "state_of p = \<lparr>gap_usage = gap_usage p, gap_index = gap_index p,
                 current_cursor = current_cursor p, current_label = current_label p,
                 gap_has_blocks = gap_has_blocks p\<rparr>"

definition current_gap :: "Gap list \<Rightarrow> nat \<Rightarrow> Gap option" where
  "current_gap gaps idx = (if idx \<ge> length gaps then None else Some (gaps ! idx))"

definition gap_start_label :: "(string \<rightharpoonup> string \<times> string) \<Rightarrow> Gap \<Rightarrow> string" where
  "gap_start_label gap_labels gap =
     fst (case gap_labels (gap_id gap) of
            Some pr \<Rightarrow> pr
          | None \<Rightarrow> (gap_id gap @ '':start'', gap_id gap @ '':end''))"

definition gap_end_label :: "(string \<rightharpoonup> string \<times> string) \<Rightarrow> Gap \<Rightarrow> string" where
  "gap_end_label gap_labels gap =
     snd (case gap_labels (gap_id gap) of
            Some pr \<Rightarrow> pr
          | None \<Rightarrow> (gap_id gap @ '':start'', gap_id gap @ '':end''))"

definition ensure_gap_exit_ok ::
  "(string \<rightharpoonup> string \<times> string) \<Rightarrow> real \<Rightarrow> (string \<rightharpoonup> real) \<Rightarrow> Gap \<Rightarrow> Coordinate \<Rightarrow>
   string option \<Rightarrow> (real \<times> real \<times> string \<times> string) option" where
  "ensure_gap_exit_ok gap_labels tolerance usage gap cursor label =
     (let (distance, minutes) = travel_minutes_between cursor (end_location gap);
          remaining = gap_duration gap - usage_get usage (gap_id gap)
      in if minutes > remaining + tolerance then None
         else Some (distance, minutes,
                    (case label of Some l \<Rightarrow> l | None \<Rightarrow> gap_start_label gap_labels gap),
                    gap_end_label gap_labels gap))"

text \<open>
  Leaving a gap: the exit leg is charged and logged when it is longer than the tolerance,
  and the cursor moves to the start of the next gap. \<^verbatim>\<open>shift_to_next_gap\<close> and the end
  of \<^verbatim>\<open>assign_order_to_gaps\<close> run these same statements.
\<close>

definition leave_gap :: "real \<Rightarrow> Gap \<Rightarrow> real \<times> real \<times> string \<times> string \<Rightarrow> Placement \<Rightarrow> Placement" where
  "leave_gap tolerance gap exit_info p =
     (let (distance, minutes, from_label, to_label) = exit_info;
          p1 = (if minutes > tolerance
                then p\<lparr>gap_usage := (gap_usage p)(gap_id gap \<mapsto> usage_get (gap_usage p) (gap_id gap) + minutes),
                       movement_logs := movement_logs p @
                         [\<lparr>from_label = from_label, to_label = to_label,
                           distance = distance, minutes = minutes\<rparr>]\<rparr>
                else p)
      in p1\<lparr>gap_index := gap_index p1 + 1, current_cursor := None, current_label := None,
             gap_has_blocks := False\<rparr>)"

definition shift_to_next_gap ::
  "Gap list \<Rightarrow> (string \<rightharpoonup> string \<times> string) \<Rightarrow> real \<Rightarrow> Placement \<Rightarrow> bool \<times> Placement" where
  "shift_to_next_gap gaps gap_labels tolerance p =
     (case current_gap gaps (gap_index p) of
        None \<Rightarrow> (False, p)
      | Some gap \<Rightarrow>
          (let cursor = (case current_cursor p of Some c \<Rightarrow> c | None \<Rightarrow> start_location gap)
           in case ensure_gap_exit_ok gap_labels tolerance (gap_usage p) gap cursor (current_label p) of
                None \<Rightarrow> (False, p)
              | Some exit_info \<Rightarrow>
                  (let p' = leave_gap tolerance gap exit_info p
                   in (gap_index p' < length gaps, p'))))"

text \<open>
  The location-preference test of \<^verbatim>\<open>allocate_suggestion\<close>: \<open>True\<close> when the
  suggestion may not be placed at the current position and the gap must be left. An
  unrecognised preference always blocks. A non-mandatory \<^verbatim>\<open>near_home\<close> suggestion
  blocks unless it fits at the start of the first gap or in the last gap. For a mandatory
  one the source computes \<^verbatim>\<open>prefer_this_placement\<close> and never reads it, so nothing
  blocks.
\<close>

definition preference_blocks ::
  "Gap list \<Rightarrow> (string \<rightharpoonup> string \<times> string) \<Rightarrow> real \<Rightarrow> Suggestion \<Rightarrow> bool \<Rightarrow> Placement \<Rightarrow>
   Gap \<Rightarrow> Coordinate \<Rightarrow> real \<Rightarrow> bool" where
  "preference_blocks gaps gap_labels tolerance suggestion is_last_suggestion p gap cursor remaining =
     (case location_preference suggestion of
        None \<Rightarrow> False
      | Some preference \<Rightarrow>
          if preference = [] then False
          else if preference \<noteq> ''near_home'' then True
          else
            (let (start_label, end_label) =
                   (case gap_labels (gap_id gap) of Some pr \<Rightarrow> pr | None \<Rightarrow> ([], []));
                 is_at_first_gap_start =
                   (gap_index p = 0 \<and> current_cursor p = None \<and> start_label = HOME_LABEL);
                 is_at_last_gap =
                   (int (gap_index p) = int (length gaps) - 1 \<and> end_label = HOME_LABEL)
             in if \<not> is_mandatory tolerance suggestion then
                  (let travel_in = snd (travel_minutes_between cursor (location suggestion));
                       travel_to_end =
                         snd (travel_minutes_between (location suggestion) (end_location gap));
                       can_place_at_first =
                         (is_at_first_gap_start \<and>
                          travel_in + duration suggestion \<le> remaining + tolerance);
                       can_place_at_last =
                         (is_at_last_gap \<and>
                          (if is_last_suggestion
                           then travel_in + duration suggestion + travel_to_end
                           else travel_in + duration suggestion) \<le> remaining + tolerance)
                   in \<not> (can_place_at_first \<or> can_place_at_last))
                else False))"

text \<open>
  One pass through the body of the \<^verbatim>\<open>while True\<close> loop of \<^verbatim>\<open>allocate_suggestion\<close>:
  the suggestion is placed, or the loop asks for the next gap (every
  \<^verbatim>\<open>if not shift_to_next_gap(): return False; continue\<close>), or there is no gap left.
\<close>

datatype attempt = Placed Placement | Advance Placement | NoGap

definition place_step ::
  "Gap list \<Rightarrow> (string \<rightharpoonup> string \<times> string) \<Rightarrow> real \<Rightarrow> Suggestion \<Rightarrow> bool \<Rightarrow> Placement \<Rightarrow> attempt" where
  "place_step gaps gap_labels tolerance suggestion is_last_suggestion p =
     (case current_gap gaps (gap_index p) of
        None \<Rightarrow> NoGap
      | Some gap \<Rightarrow>
          (let cursor = (case current_cursor p of Some c \<Rightarrow> c | None \<Rightarrow> start_location gap);
               label = (case current_label p of Some l \<Rightarrow> l | None \<Rightarrow> gap_start_label gap_labels gap);
               used = usage_get (gap_usage p) (gap_id gap);
               remaining = gap_duration gap - used
           in if remaining \<le> tolerance then Advance p
              else if preference_blocks gaps gap_labels tolerance suggestion is_last_suggestion
                        p gap cursor remaining
              then Advance p
              else
                (let (distance, travel_in) = travel_minutes_between cursor (location suggestion);
                     total_required = travel_in + duration suggestion
                 in if total_required > remaining + tolerance then Advance p
                    else
                      (let p1 = (if travel_in > tolerance
                                 then p\<lparr>gap_usage := (gap_usage p)(gap_id gap \<mapsto>
                                                      usage_get (gap_usage p) (gap_id gap) + travel_in),
                                        movement_logs := movement_logs p @
                                          [\<lparr>from_label = label, to_label = suggestion_id suggestion,
                                            distance = distance, minutes = travel_in\<rparr>]\<rparr>
                                 else p);
                           remaining1 = (if travel_in > tolerance then remaining - travel_in
                                         else remaining)
                       in if duration suggestion > remaining1 + tolerance then Advance p1
                          else
                            (let offset = usage_get (gap_usage p1) (gap_id gap)
                             in Placed
                                  (p1\<lparr>gap_usage := (gap_usage p1)(gap_id gap \<mapsto>
                                                      offset + duration suggestion),
                                      schedule := schedule p1 @
                                        [\<lparr>block_suggestion_id = suggestion_id suggestion,
                                          block_gap_id = gap_id gap,
                                          start_offset = offset,
                                          block_duration = duration suggestion,
                                          block_location = location suggestion\<rparr>],
                                      current_cursor := Some (location suggestion),
                                      current_label := Some (suggestion_id suggestion),
                                      gap_has_blocks := True\<rparr>))))))"

lemma leave_gap_index: "gap_index (leave_gap tolerance gap exit_info p) = gap_index p + 1"
  by (cases exit_info) (simp add: leave_gap_def)

lemma shift_to_next_gap_index:
  "shift_to_next_gap gaps gap_labels tolerance p = (True, p') \<Longrightarrow>
     gap_index p' = gap_index p + 1 \<and> gap_index p' < length gaps"
  by (auto simp: shift_to_next_gap_def Let_def leave_gap_index split: option.splits)

lemma place_step_Advance_index:
  "place_step gaps gap_labels tolerance suggestion is_last p = Advance p' \<Longrightarrow>
     gap_index p' = gap_index p"
  by (auto simp: place_step_def Let_def split: option.splits if_splits prod.splits)

function allocate_suggestion ::
  "Gap list \<Rightarrow> (string \<rightharpoonup> string \<times> string) \<Rightarrow> real \<Rightarrow> Suggestion \<Rightarrow> bool \<Rightarrow> Placement \<Rightarrow>
   bool \<times> Placement" where
  "allocate_suggestion gaps gap_labels tolerance suggestion is_last_suggestion p =
     (case place_step gaps gap_labels tolerance suggestion is_last_suggestion p of
        NoGap \<Rightarrow> (False, p)
      | Placed p' \<Rightarrow> (True, p')
      | Advance p' \<Rightarrow>
          (case shift_to_next_gap gaps gap_labels tolerance p' of
             (ok, p'') \<Rightarrow>
               if ok then allocate_suggestion gaps gap_labels tolerance suggestion is_last_suggestion p''
               else (False, p'')))"
  by pat_completeness auto
termination
proof (relation "measure (\<lambda>(gaps, gap_labels, tolerance, suggestion, is_last, p). length gaps - gap_index p)")
  show "wf (measure (\<lambda>(gaps, gap_labels, tolerance, suggestion, is_last, p :: Placement).
              length gaps - gap_index p))"
    by simp
next
  fix gaps gap_labels tolerance suggestion is_last_suggestion and p p' :: Placement
    and x ok p''
  assume a: "place_step gaps gap_labels tolerance suggestion is_last_suggestion p = Advance p'"
    and s: "(ok, p'') = shift_to_next_gap gaps gap_labels tolerance p'" and ok: "ok"
  from s ok have "shift_to_next_gap gaps gap_labels tolerance p' = (True, p'')" by simp
  from shift_to_next_gap_index [OF this] place_step_Advance_index [OF a]
  show "((gaps, gap_labels, tolerance, suggestion, is_last_suggestion, p''),
         (gaps, gap_labels, tolerance, suggestion, is_last_suggestion, p))
        \<in> measure (\<lambda>(gaps, gap_labels, tolerance, suggestion, is_last, p). length gaps - gap_index p)"
    by auto
qed

declare allocate_suggestion.simps [simp del]

text \<open>The \<^verbatim>\<open>for\<close> loop over the ordering; the flag marks the last suggestion.\<close>

fun allocate_all ::
  "Gap list \<Rightarrow> (string \<rightharpoonup> string \<times> string) \<Rightarrow> real \<Rightarrow> Suggestion list \<Rightarrow> Placement \<Rightarrow>
   Placement option" where
  "allocate_all gaps gap_labels tolerance [] p = Some p"
| "allocate_all gaps gap_labels tolerance (s # rest) p =
     (case allocate_suggestion gaps gap_labels tolerance s (rest = []) p of
        (ok, p') \<Rightarrow> if ok then allocate_all gaps gap_labels tolerance rest p' else None)"

definition initial_placement :: "Gap list \<Rightarrow> AllocationState option \<Rightarrow> Placement" where
  "initial_placement gaps initial_state =
     (case initial_state of
        None \<Rightarrow>
          \<lparr>gap_usage = fresh_usage gaps, gap_index = 0, current_cursor = None,
           current_label = None, gap_has_blocks = False, schedule = [], movement_logs = []\<rparr>
      | Some s \<Rightarrow>
          \<lparr>gap_usage = fresh_usage gaps ++ gap_usage s, gap_index = gap_index s,
           current_cursor = current_cursor s, current_label = current_label s,
           gap_has_blocks = gap_has_blocks s, schedule = [], movement_logs = []\<rparr>)"

definition assign_order_to_gaps ::
  "Suggestion list \<Rightarrow> Gap list \<Rightarrow> (string \<rightharpoonup> string \<times> string) \<Rightarrow> real \<Rightarrow> AllocationState option \<Rightarrow>
   (ScheduledBlock list \<times> AllocationState \<times> MovementLogEntry list) option" where
  "assign_order_to_gaps ordered gaps gap_labels tolerance initial_state =
     (if ordered = [] then
        Some ([],
              (case initial_state of
                 Some s \<Rightarrow> s
               | None \<Rightarrow> \<lparr>gap_usage = fresh_usage gaps, gap_index = 0, current_cursor = None,
                          current_label = None, gap_has_blocks = False\<rparr>),
              [])
      else
        (case allocate_all gaps gap_labels tolerance ordered (initial_placement gaps initial_state) of
           None \<Rightarrow> None
         | Some p \<Rightarrow>
             (case current_gap gaps (gap_index p) of
                None \<Rightarrow> Some (schedule p, state_of p, movement_logs p)
              | Some gap \<Rightarrow>
                  (let cursor = (case current_cursor p of Some c \<Rightarrow> c | None \<Rightarrow> start_location gap)
                   in case ensure_gap_exit_ok gap_labels tolerance (gap_usage p) gap cursor
                             (current_label p) of
                        None \<Rightarrow> None
                      | Some exit_info \<Rightarrow>
                          (let p' = leave_gap tolerance gap exit_info p
                           in Some (schedule p', state_of p', movement_logs p'))))))"

subsection \<open>Knapsack selector\<close>

text \<open>Python's \<^verbatim>\<open>round\<close> on a float: to the nearest integer, a tie to the even one.\<close>

definition py_round :: "real \<Rightarrow> int" where
  "py_round x =
     (let f = \<lfloor>x\<rfloor>; d = x - of_int f
      in if d < 1 / 2 then f else if d > 1 / 2 then f + 1 else if even f then f else f + 1)"

text \<open>
  Float arithmetic. A finite double is an integer multiple of a power of two with a
  significand of at most 53 bits, so the doubles around \<open>x\<close> are \<open>double_ulp x\<close> apart
  (below \<open>2\<^sup>-\<^sup>1\<^sup>0\<^sup>2\<^sup>2\<close> the spacing is that of the subnormal numbers). An operation
  returns the exact result rounded to the nearest double, a tie to the even significand.
  Results beyond the largest double are outside this model.
\<close>

definition double_exp :: "real \<Rightarrow> int" where
  "double_exp x = max \<lfloor>log 2 \<bar>x\<bar>\<rfloor> (- 1022)"

definition double_ulp :: "real \<Rightarrow> real" where
  "double_ulp x = 2 powr of_int (double_exp x - 52)"

definition round_to_double :: "real \<Rightarrow> real" where
  "round_to_double x =
     (if x = 0 then 0 else of_int (py_round (x / double_ulp x)) * double_ulp x)"

definition double_add :: "real \<Rightarrow> real \<Rightarrow> real" where
  "double_add x y = round_to_double (x + y)"

definition double_div :: "real \<Rightarrow> real \<Rightarrow> real" where
  "double_div x y = round_to_double (x / y)"

text \<open>
  The selector adds scores (\<^verbatim>\<open>dp[w - w_i] + v_i\<close>) and divides minutes by the resolution.
  It takes the two operations as the parameters \<open>fadd\<close> and \<open>fdiv\<close>, which the
  orchestrator instantiates with the operations on doubles; comparisons of floats are exact
  and stay comparisons of reals. Lists have no bound on their length here: a table too
  large for the interpreter's memory is outside this model.

  The body of the inner loop at capacity \<open>w\<close>, the inner loop for one item
  (\<^verbatim>\<open>range(W, w_i - 1, -1)\<close>, on the shared table \<open>dp\<close> and the item's row of
  \<^verbatim>\<open>take\<close>), the loop over the items, and the backtracking loop from the last item down.
\<close>

definition dp_step ::
  "(real \<Rightarrow> real \<Rightarrow> real) \<Rightarrow> nat \<Rightarrow> real \<Rightarrow> real list \<times> bool list \<Rightarrow> nat \<Rightarrow> real list \<times> bool list" where
  "dp_step fadd w_i v_i acc w =
     (let dp = fst acc; row = snd acc; candidate = fadd (dp ! (w - w_i)) v_i
      in if candidate > dp ! w then (dp[w := candidate], row[w := True]) else (dp, row))"

definition dp_item ::
  "(real \<Rightarrow> real \<Rightarrow> real) \<Rightarrow> nat \<Rightarrow> nat \<Rightarrow> real \<Rightarrow> real list \<Rightarrow> real list \<times> bool list" where
  "dp_item fadd W w_i v_i dp =
     foldl (dp_step fadd w_i v_i) (dp, replicate (W + 1) False) (rev [w_i..<W + 1])"

fun dp_table ::
  "(real \<Rightarrow> real \<Rightarrow> real) \<Rightarrow> nat \<Rightarrow> (nat \<times> real) list \<Rightarrow> real list \<Rightarrow> real list \<times> bool list list" where
  "dp_table fadd W [] dp = (dp, [])"
| "dp_table fadd W (wv # rest) dp =
     (let r = dp_item fadd W (fst wv) (snd wv) dp; t = dp_table fadd W rest (fst r)
      in (fst t, snd r # snd t))"

fun backtrack :: "(Suggestion \<times> nat \<times> bool list) list \<Rightarrow> nat \<Rightarrow> Suggestion list" where
  "backtrack [] w = []"
| "backtrack ((s, w_i, row) # rest) w =
     (if row ! w then s # backtrack rest (w - w_i) else backtrack rest w)"

definition item_weight :: "(real \<Rightarrow> real \<Rightarrow> real) \<Rightarrow> real \<Rightarrow> Suggestion \<Rightarrow> nat" where
  "item_weight fdiv resolution_minutes s =
     nat (max 1 (py_round (fdiv (min_duration s) resolution_minutes)))"

definition greedy_select_candidates ::
  "(real \<Rightarrow> real \<Rightarrow> real) \<Rightarrow> (real \<Rightarrow> real \<Rightarrow> real) \<Rightarrow>
   Suggestion list \<Rightarrow> Gap list \<Rightarrow> real \<Rightarrow> real option \<Rightarrow> real \<Rightarrow> real \<Rightarrow> py_error + Suggestion list" where
  "greedy_select_candidates fadd fdiv suggestions gaps max_distance available_minutes tolerance
     resolution_minutes =
     (let capacity = (case available_minutes of Some a \<Rightarrow> a | None \<Rightarrow> total_gap_minutes gaps)
      in if capacity \<le> tolerance then Inr []
         else if resolution_minutes = 0 then Inl ZeroDivisionError
         else
           (let items = suggestions;
                W = nat (max 0 (py_round (fdiv capacity resolution_minutes)));
                weights = map (item_weight fdiv resolution_minutes) items;
                values = map score items;
                take_rows = snd (dp_table fadd W (zip weights values) (replicate (W + 1) 0));
                chosen = backtrack (rev (zip items (zip weights take_rows))) W
            in Inr (sort_key (\<lambda>s. - score s) chosen)))"

subsection \<open>Ordering search\<close>

text \<open>
  \<^verbatim>\<open>itertools.permutations\<close> yields the orderings in lexicographic order of positions:
  every choice of a first element, in the order of the input, followed by the orderings of
  the elements left.
\<close>

fun picks :: "'a list \<Rightarrow> ('a \<times> 'a list) list" where
  "picks [] = []"
| "picks (x # xs) = (x, xs) # map (\<lambda>yr. (fst yr, x # snd yr)) (picks xs)"

lemma picks_length: "yr \<in> set (picks xs) \<Longrightarrow> length (snd yr) < length xs"
  by (induction xs arbitrary: yr) auto

function itertools_permutations :: "'a list \<Rightarrow> 'a list list" where
  "itertools_permutations xs =
     (if xs = [] then [[]]
      else concat (map (\<lambda>yr. map ((#) (fst yr)) (itertools_permutations (snd yr))) (picks xs)))"
  by pat_completeness auto
termination
  by (relation "measure length") (auto dest: picks_length)

declare itertools_permutations.simps [simp del]

fun route_minutes :: "Coordinate option \<Rightarrow> Suggestion list \<Rightarrow> real \<Rightarrow> real \<times> Coordinate option" where
  "route_minutes previous [] acc = (acc, previous)"
| "route_minutes previous (s # rest) acc =
     route_minutes (Some (location s)) rest
       (case previous of
          Some pr \<Rightarrow> acc + snd (travel_minutes_between pr (location s))
        | None \<Rightarrow> acc)"

definition permutation_cost :: "Coordinate option \<Rightarrow> Coordinate option \<Rightarrow> Suggestion list \<Rightarrow> real" where
  "permutation_cost start_loc end_loc permutation =
     (let r = route_minutes start_loc permutation 0
      in case snd r of
           None \<Rightarrow> fst r
         | Some previous \<Rightarrow>
             (case end_loc of
                None \<Rightarrow> fst r
              | Some e \<Rightarrow> fst r + snd (travel_minutes_between previous e)))"

text \<open>
  One turn of the loop over the permutations. The best cost starts at \<^verbatim>\<open>math.inf\<close>,
  here \<open>None\<close>, which every cost is below.
\<close>

definition best_step ::
  "Coordinate option \<Rightarrow> Coordinate option \<Rightarrow> Suggestion list option \<times> real option \<times> nat \<Rightarrow>
   Suggestion list \<Rightarrow> Suggestion list option \<times> real option \<times> nat" where
  "best_step start_loc end_loc acc permutation =
     (let best_order = fst acc; best_cost_minutes = fst (snd acc);
          permutations_checked = snd (snd acc) + 1;
          travel_cost_minutes = permutation_cost start_loc end_loc permutation
      in if (case best_cost_minutes of None \<Rightarrow> True | Some b \<Rightarrow> travel_cost_minutes < b)
         then (Some permutation, Some travel_cost_minutes, permutations_checked)
         else (best_order, best_cost_minutes, permutations_checked))"

definition enumerate_best_order ::
  "Suggestion list \<Rightarrow> Coordinate option \<Rightarrow> Coordinate option \<Rightarrow> int \<Rightarrow>
   py_error + (Suggestion list \<times> real \<times> nat)" where
  "enumerate_best_order suggestions start_loc end_loc permutation_limit =
     (let n = length suggestions
      in if n = 0 then Inr ([], 0, 0)
         else if int n > permutation_limit then Inl ValueError
         else
           (case foldl (best_step start_loc end_loc) (None, None, 0)
                   (itertools_permutations suggestions) of
              (Some best_order, Some best_cost_minutes, permutations_checked) \<Rightarrow>
                Inr (best_order, best_cost_minutes, permutations_checked)
            | _ \<Rightarrow> Inl AssertionError))"

subsection \<open>Remaining capacity and starting location\<close>

definition remaining_capacity :: "Gap list \<Rightarrow> AllocationState option \<Rightarrow> real \<Rightarrow> real" where
  "remaining_capacity gaps state tolerance =
     (case state of
        None \<Rightarrow> total_gap_minutes gaps
      | Some st \<Rightarrow>
          foldl (\<lambda>total ig.
                   if fst ig < gap_index st then total
                   else
                     (let used = usage_get (gap_usage st) (gap_id (snd ig));
                          remaining = max 0 (gap_duration (snd ig) - used)
                      in if remaining > tolerance then total + remaining else total))
                0 (enumerate 0 gaps))"

definition starting_location_for_state :: "Gap list \<Rightarrow> AllocationState option \<Rightarrow> Coordinate option" where
  "starting_location_for_state gaps state =
     (if gaps = [] then None
      else case state of
             None \<Rightarrow> Some (start_location (gaps ! 0))
           | Some st \<Rightarrow>
               if gap_index st \<ge> length gaps then None
               else (case current_cursor st of
                       Some c \<Rightarrow> Some c
                     | None \<Rightarrow> Some (start_location (gaps ! gap_index st))))"

subsection \<open>Orchestrator\<close>

text \<open>
  The locals of \<^verbatim>\<open>schedule_suggestions\<close> that \<^verbatim>\<open>schedule_group\<close> and the main loop
  change.
\<close>

record Orch =
  remaining :: "Suggestion list"
  state :: "AllocationState option"
  ordered_total :: "Suggestion list"
  scheduled_blocks_total :: "ScheduledBlock list"
  allocated_minutes_total :: "string \<rightharpoonup> real"
  movement_log_total :: "MovementLogEntry list"
  dropped_total :: "Suggestion list"
  total_travel_cost :: real
  permutations_total :: nat

text \<open>
  Dropping a candidate: \<^verbatim>\<open>if c in remaining: remaining.remove(c)\<close> and
  \<^verbatim>\<open>dropped_total.append(c)\<close>. \<^verbatim>\<open>in\<close> and \<^verbatim>\<open>remove\<close> compare the dataclass by its
  fields, as equality of records does.
\<close>

definition drop_candidate :: "Suggestion \<Rightarrow> Orch \<Rightarrow> Orch" where
  "drop_candidate c orch =
     orch\<lparr>remaining := remove1 c (remaining orch), dropped_total := dropped_total orch @ [c]\<rparr>"

text \<open>
  \<^verbatim>\<open>while len(batch) > permutation_limit: batch.pop() ...\<close>. With a negative limit the loop
  empties the batch and then pops from the empty list, an \<^verbatim>\<open>IndexError\<close>.
\<close>

function shrink_batch :: "int \<Rightarrow> Suggestion list \<Rightarrow> Orch \<Rightarrow> py_error + (Suggestion list \<times> Orch)" where
  "shrink_batch permutation_limit batch orch =
     (if int (length batch) > permutation_limit then
        (if batch = [] then Inl IndexError
         else shrink_batch permutation_limit (butlast batch) (drop_candidate (last batch) orch))
      else Inr (batch, orch))"
  by pat_completeness auto
termination
  by (relation "measure (\<lambda>(permutation_limit, batch, orch). length batch)") auto

declare shrink_batch.simps [simp del]

text \<open>The bookkeeping after a successful placement of \<open>order\<close>.\<close>

definition commit ::
  "Suggestion list \<Rightarrow> real \<Rightarrow> nat \<Rightarrow> ScheduledBlock list \<Rightarrow> AllocationState \<Rightarrow> MovementLogEntry list \<Rightarrow>
   Orch \<Rightarrow> Orch" where
  "commit order cost permutations_checked blocks new_state movements orch =
     orch\<lparr>remaining := foldl (\<lambda>r s. remove1 s r) (remaining orch) order,
          state := Some new_state,
          ordered_total := ordered_total orch @ order,
          scheduled_blocks_total := scheduled_blocks_total orch @ blocks,
          allocated_minutes_total :=
            foldl (\<lambda>m b. m(block_suggestion_id b \<mapsto>
                              usage_get m (block_suggestion_id b) + block_duration b))
                  (allocated_minutes_total orch) blocks,
          movement_log_total := movement_log_total orch @ movements,
          total_travel_cost := total_travel_cost orch + cost,
          permutations_total := permutations_total orch + permutations_checked\<rparr>"

text \<open>
  The \<^verbatim>\<open>while working\<close> loop of \<^verbatim>\<open>schedule_group\<close>: search the best order, place it,
  and on a \<^verbatim>\<open>ValueError\<close> of the search or a failed placement drop the last candidate
  and try again.
\<close>

function try_working ::
  "Gap list \<Rightarrow> (string \<rightharpoonup> string \<times> string) \<Rightarrow> int \<Rightarrow> real \<Rightarrow> Suggestion list \<Rightarrow> Orch \<Rightarrow>
   py_error + (bool \<times> Orch)" where
  "try_working gaps gap_labels permutation_limit tolerance working orch =
     (if working = [] then Inr (False, orch)
      else
        (case starting_location_for_state gaps (state orch) of
           None \<Rightarrow> Inr (False, orch)
         | Some start_loc \<Rightarrow>
             (case enumerate_best_order working (Some start_loc)
                     (if gaps = [] then None else Some (end_location (last gaps)))
                     permutation_limit of
                Inl e \<Rightarrow>
                  if e = ValueError
                  then try_working gaps gap_labels permutation_limit tolerance (butlast working)
                         (drop_candidate (last working) orch)
                  else Inl e
              | Inr found \<Rightarrow>
                  (case assign_order_to_gaps (fst found) gaps gap_labels tolerance (state orch) of
                     None \<Rightarrow>
                       try_working gaps gap_labels permutation_limit tolerance (butlast working)
                         (drop_candidate (last working) orch)
                   | Some placed \<Rightarrow>
                       Inr (True,
                            commit (fst found) (fst (snd found)) (snd (snd found))
                              (fst placed) (fst (snd placed)) (snd (snd placed)) orch)))))"
  by pat_completeness auto
termination
  by (relation "measure (\<lambda>(gaps, gap_labels, permutation_limit, tolerance, working, orch). length working)")
     auto

declare try_working.simps [simp del]

definition schedule_group ::
  "Gap list \<Rightarrow> (string \<rightharpoonup> string \<times> string) \<Rightarrow> int \<Rightarrow> real \<Rightarrow> Suggestion list \<Rightarrow> Orch \<Rightarrow>
   py_error + (bool \<times> Orch)" where
  "schedule_group gaps gap_labels permutation_limit tolerance grp orch =
     (let batch = filter (\<lambda>s. s \<in> set (remaining orch)) grp
      in if batch = [] then Inr (False, orch)
         else
           (case shrink_batch permutation_limit (sort_key (\<lambda>s. - score s) batch) orch of
              Inl e \<Rightarrow> Inl e
            | Inr shrunk \<Rightarrow>
                if fst shrunk = [] then Inr (False, snd shrunk)
                else try_working gaps gap_labels permutation_limit tolerance (fst shrunk) (snd shrunk)))"

text \<open>Facts about the search and the group scheduler that the main loop's termination needs.\<close>

lemma picks_mset: "yr \<in> set (picks xs) \<Longrightarrow> mset xs = add_mset (fst yr) (mset (snd yr))"
  by (induction xs arbitrary: yr) auto

lemma itertools_permutations_mset:
  "p \<in> set (itertools_permutations xs) \<Longrightarrow> mset p = mset xs"
proof (induction xs arbitrary: p rule: itertools_permutations.induct)
  case (1 xs)
  show ?case
  proof (cases "xs = []")
    case True
    with "1.prems" show ?thesis by (simp add: itertools_permutations.simps)
  next
    case False
    with "1.prems" obtain yr q where yr: "yr \<in> set (picks xs)"
      and q: "q \<in> set (itertools_permutations (snd yr))" and p: "p = fst yr # q"
      by (subst (asm) itertools_permutations.simps) auto
    from "1.IH" [OF False yr q] picks_mset [OF yr] p show ?thesis by simp
  qed
qed

lemma foldl_best_step_order:
  "foldl (best_step s e) acc ps = r \<Longrightarrow> fst r = fst acc \<or> (\<exists>p \<in> set ps. fst r = Some p)"
proof (induction ps arbitrary: acc)
  case Nil
  then show ?case by auto
next
  case (Cons p ps)
  from Cons.prems have "foldl (best_step s e) (best_step s e acc p) ps = r" by simp
  from Cons.IH [OF this] show ?case
    by (auto simp: best_step_def Let_def split: if_splits)
qed

lemma enumerate_best_order_perm:
  assumes "enumerate_best_order xs s e permutation_limit = Inr found"
  shows "mset (fst found) = mset xs"
proof (cases "xs = []")
  case True
  with assms show ?thesis by (auto simp: enumerate_best_order_def)
next
  case False
  define r where "r = foldl (best_step s e) (None, None, 0) (itertools_permutations xs)"
  from assms False have "fst r = Some (fst found)"
    by (auto simp: enumerate_best_order_def Let_def r_def split: if_splits prod.splits option.splits)
  with foldl_best_step_order [of s e "(None, None, 0)" "itertools_permutations xs" r]
  have "fst found \<in> set (itertools_permutations xs)"
    by (auto simp: r_def)
  then show ?thesis by (rule itertools_permutations_mset)
qed

lemma length_remaining_drop_candidate:
  "length (remaining (drop_candidate c orch)) \<le> length (remaining orch)"
  by (simp add: drop_candidate_def length_remove1)

lemma length_remaining_drop_candidate_less:
  "c \<in> set (remaining orch) \<Longrightarrow> length (remaining (drop_candidate c orch)) < length (remaining orch)"
  using length_pos_if_in_set [of c "remaining orch"]
  by (simp add: drop_candidate_def length_remove1)

lemma length_foldl_remove1: "length (foldl (\<lambda>r s. remove1 s r) xs ys) \<le> length xs"
proof (induction ys arbitrary: xs)
  case Nil
  show ?case by simp
next
  case (Cons y ys)
  have "length (foldl (\<lambda>r s. remove1 s r) (remove1 y xs) ys) \<le> length (remove1 y xs)"
    by (rule Cons.IH)
  also have "\<dots> \<le> length xs" by (simp add: length_remove1)
  finally show ?case by simp
qed

lemma length_foldl_remove1_less:
  assumes "y \<in> set ys" "y \<in> set xs"
  shows "length (foldl (\<lambda>r s. remove1 s r) xs ys) < length xs"
  using assms
proof (induction ys arbitrary: xs)
  case Nil
  then show ?case by simp
next
  case (Cons z zs)
  show ?case
  proof (cases "z \<in> set xs")
    case True
    have "length (foldl (\<lambda>r s. remove1 s r) (remove1 z xs) zs) \<le> length (remove1 z xs)"
      by (rule length_foldl_remove1)
    also from True have "\<dots> < length xs"
      using length_pos_if_in_set [of z xs] by (simp add: length_remove1)
    finally show ?thesis by simp
  next
    case False
    with Cons.prems have "y \<in> set zs" by auto
    moreover from False have "remove1 z xs = xs" by (simp add: remove1_idem)
    ultimately show ?thesis using Cons.IH [of xs] Cons.prems(2) by simp
  qed
qed

lemma length_remaining_commit:
  "length (remaining (commit order c n b st m orch)) \<le> length (remaining orch)"
  by (simp add: commit_def length_foldl_remove1)

text \<open>
  A proof rule for the \<^verbatim>\<open>while working\<close> loop: a property of the working list and the
  orchestrator state that every drop keeps gives \<open>Q\<close> for the result, once \<open>Q\<close> is
  shown for a committed placement and for giving up.
\<close>

lemma try_working_rule:
  assumes run: "try_working gaps gap_labels permutation_limit tolerance working orch = Inr (ok, orch')"
    and init: "P working orch"
    and drop: "\<And>w oc. P w oc \<Longrightarrow> w \<noteq> [] \<Longrightarrow> P (butlast w) (drop_candidate (last w) oc)"
    and success: "\<And>w oc start_loc found placed.
        P w oc \<Longrightarrow> w \<noteq> [] \<Longrightarrow>
        starting_location_for_state gaps (state oc) = Some start_loc \<Longrightarrow>
        enumerate_best_order w (Some start_loc)
          (if gaps = [] then None else Some (end_location (last gaps))) permutation_limit = Inr found \<Longrightarrow>
        assign_order_to_gaps (fst found) gaps gap_labels tolerance (state oc) = Some placed \<Longrightarrow>
        Q True (commit (fst found) (fst (snd found)) (snd (snd found))
                  (fst placed) (fst (snd placed)) (snd (snd placed)) oc)"
    and giveup: "\<And>w oc. P w oc \<Longrightarrow> Q False oc"
  shows "Q ok orch'"
  using run init success
proof (induction gaps gap_labels permutation_limit tolerance working orch
       rule: try_working.induct)
  case (1 gaps gap_labels permutation_limit tolerance working orch)
  note run = "1.prems"(1) and P = "1.prems"(2) and success = "1.prems"(3)
  show ?case
  proof (cases "working = []")
    case True
    with run have "ok = False" "orch' = orch" by (simp_all add: try_working.simps)
    with giveup [OF P] show ?thesis by simp
  next
    case ne: False
    show ?thesis
    proof (cases "starting_location_for_state gaps (state orch)")
      case None
      with run ne have "ok = False" "orch' = orch" by (simp_all add: try_working.simps)
      with giveup [OF P] show ?thesis by simp
    next
      case (Some start_loc)
      let ?end = "if gaps = [] then None else Some (end_location (last gaps))"
      let ?rec = "try_working gaps gap_labels permutation_limit tolerance (butlast working)
                    (drop_candidate (last working) orch)"
      show ?thesis
      proof (cases "enumerate_best_order working (Some start_loc) ?end permutation_limit")
        case (Inl e)
        with run ne Some have e: "e = ValueError" and rec: "?rec = Inr (ok, orch')"
          by (simp_all add: try_working.simps [of gaps gap_labels permutation_limit tolerance working]
                split: if_splits)
        from "1.IH"(1) [OF ne Some Inl e rec drop [OF P ne] success] show ?thesis .
      next
        case (Inr found)
        show ?thesis
        proof (cases "assign_order_to_gaps (fst found) gaps gap_labels tolerance (state orch)")
          case None
          with run ne Some Inr have rec: "?rec = Inr (ok, orch')"
            by (simp add: try_working.simps [of gaps gap_labels permutation_limit tolerance working])
          from "1.IH"(2) [OF ne Some Inr None rec drop [OF P ne] success] show ?thesis .
        next
          case (Some placed)
          with run ne \<open>starting_location_for_state gaps (state orch) = Some start_loc\<close> Inr
          have "ok = True"
            "orch' = commit (fst found) (fst (snd found)) (snd (snd found))
                       (fst placed) (fst (snd placed)) (snd (snd placed)) orch"
            by (simp_all add: try_working.simps [of gaps gap_labels permutation_limit tolerance working])
          with success [OF P ne \<open>starting_location_for_state gaps (state orch) = Some start_loc\<close> Inr Some]
          show ?thesis by simp
        qed
      qed
    qed
  qed
qed

lemma shrink_batch_rule:
  assumes run: "shrink_batch permutation_limit batch orch = Inr (batch', orch')"
    and init: "P batch orch"
    and drop: "\<And>w oc. P w oc \<Longrightarrow> w \<noteq> [] \<Longrightarrow> P (butlast w) (drop_candidate (last w) oc)"
  shows "P batch' orch' \<and> int (length batch') \<le> permutation_limit"
  using run init
proof (induction permutation_limit batch orch rule: shrink_batch.induct)
  case (1 permutation_limit batch orch)
  show ?case
  proof (cases "int (length batch) > permutation_limit")
    case False
    with "1.prems" show ?thesis by (simp add: shrink_batch.simps)
  next
    case True
    with "1.prems"(1) have ne: "batch \<noteq> []"
      by (auto simp: shrink_batch.simps [of permutation_limit batch])
    with "1.prems"(1) True
    have rec: "shrink_batch permutation_limit (butlast batch) (drop_candidate (last batch) orch)
                 = Inr (batch', orch')"
      by (simp add: shrink_batch.simps [of permutation_limit batch])
    from "1.IH" [OF True ne rec drop [OF "1.prems"(2) ne]] show ?thesis .
  qed
qed

lemma schedule_group_rule:
  assumes run: "schedule_group gaps gap_labels permutation_limit tolerance grp orch = Inr (ok, orch')"
    and init: "P (sort_key (\<lambda>s. - score s) (filter (\<lambda>s. s \<in> set (remaining orch)) grp)) orch"
    and drop: "\<And>w oc. P w oc \<Longrightarrow> w \<noteq> [] \<Longrightarrow> P (butlast w) (drop_candidate (last w) oc)"
    and success: "\<And>w oc start_loc found placed.
        P w oc \<Longrightarrow> w \<noteq> [] \<Longrightarrow> int (length w) \<le> permutation_limit \<Longrightarrow>
        starting_location_for_state gaps (state oc) = Some start_loc \<Longrightarrow>
        enumerate_best_order w (Some start_loc)
          (if gaps = [] then None else Some (end_location (last gaps))) permutation_limit = Inr found \<Longrightarrow>
        assign_order_to_gaps (fst found) gaps gap_labels tolerance (state oc) = Some placed \<Longrightarrow>
        Q True (commit (fst found) (fst (snd found)) (snd (snd found))
                  (fst placed) (fst (snd placed)) (snd (snd placed)) oc)"
    and giveup: "\<And>w oc. P w oc \<Longrightarrow> Q False oc"
  shows "Q ok orch'"
proof -
  let ?batch = "filter (\<lambda>s. s \<in> set (remaining orch)) grp"
  let ?sorted = "sort_key (\<lambda>s. - score s) ?batch"
  show ?thesis
  proof (cases "?batch = []")
    case True
    with run have "ok = False" "orch' = orch" by (simp_all add: schedule_group_def)
    moreover from True init have "P [] orch" by simp
    ultimately show ?thesis using giveup by simp
  next
    case False
    with run obtain shrunk where sh: "shrink_batch permutation_limit ?sorted orch = Inr shrunk"
      by (auto simp: schedule_group_def Let_def split: sum.splits)
    obtain b oc where shrunk: "shrunk = (b, oc)" by (cases shrunk)
    let ?P = "\<lambda>w oc. P w oc \<and> int (length w) \<le> permutation_limit"
    from shrink_batch_rule [of permutation_limit ?sorted orch b oc P, OF sh [unfolded shrunk] init drop]
    have Pb: "P b oc" and len: "int (length b) \<le> permutation_limit" by simp_all
    show ?thesis
    proof (cases "b = []")
      case True
      with run False sh shrunk have "ok = False" "orch' = oc"
        by (simp_all add: schedule_group_def Let_def)
      with giveup [OF Pb] show ?thesis by simp
    next
      case bne: False
      with run False sh shrunk
      have tw: "try_working gaps gap_labels permutation_limit tolerance b oc = Inr (ok, orch')"
        by (simp add: schedule_group_def Let_def)
      have len_butlast: "\<And>w :: Suggestion list. int (length w) \<le> permutation_limit \<Longrightarrow>
          int (length (butlast w)) \<le> permutation_limit"
        by simp
      show ?thesis
      proof (rule try_working_rule [of gaps gap_labels permutation_limit tolerance b oc ok orch' ?P Q,
                                    OF tw])
        show "P b oc \<and> int (length b) \<le> permutation_limit" using Pb len by simp
      next
        fix w oc assume "P w oc \<and> int (length w) \<le> permutation_limit" "w \<noteq> []"
        then show "P (butlast w) (drop_candidate (last w) oc) \<and>
                   int (length (butlast w)) \<le> permutation_limit"
          using drop len_butlast by blast
      next
        fix w oc start_loc found placed
        assume "P w oc \<and> int (length w) \<le> permutation_limit" "w \<noteq> []"
          "starting_location_for_state gaps (state oc) = Some start_loc"
          "enumerate_best_order w (Some start_loc)
             (if gaps = [] then None else Some (end_location (last gaps))) permutation_limit = Inr found"
          "assign_order_to_gaps (fst found) gaps gap_labels tolerance (state oc) = Some placed"
        then show "Q True (commit (fst found) (fst (snd found)) (snd (snd found))
                     (fst placed) (fst (snd placed)) (snd (snd placed)) oc)"
          using success by blast
      next
        fix w oc assume "P w oc \<and> int (length w) \<le> permutation_limit"
        then show "Q False oc" using giveup by blast
      qed
    qed
  qed
qed

lemma schedule_group_length_remaining:
  assumes "schedule_group gaps gap_labels permutation_limit tolerance grp orch = Inr (ok, orch')"
  shows "length (remaining orch') \<le> length (remaining orch) \<and>
         (ok \<longrightarrow> length (remaining orch') < length (remaining orch))"
proof (rule schedule_group_rule [OF assms,
    where P = "\<lambda>w oc. (set w \<subseteq> set (remaining oc) \<and> length (remaining oc) \<le> length (remaining orch))
                       \<or> length (remaining oc) < length (remaining orch)"
      and Q = "\<lambda>ok oc. length (remaining oc) \<le> length (remaining orch) \<and>
                        (ok \<longrightarrow> length (remaining oc) < length (remaining orch))"])
  show "(set (sort_key (\<lambda>s. - score s) (filter (\<lambda>s. s \<in> set (remaining orch)) grp))
            \<subseteq> set (remaining orch) \<and> length (remaining orch) \<le> length (remaining orch))
        \<or> length (remaining orch) < length (remaining orch)"
    by auto
next
  fix w :: "Suggestion list" and oc :: Orch
  assume P: "(set w \<subseteq> set (remaining oc) \<and> length (remaining oc) \<le> length (remaining orch))
             \<or> length (remaining oc) < length (remaining orch)" and ne: "w \<noteq> []"
  from P show "(set (butlast w) \<subseteq> set (remaining (drop_candidate (last w) oc)) \<and>
                length (remaining (drop_candidate (last w) oc)) \<le> length (remaining orch))
               \<or> length (remaining (drop_candidate (last w) oc)) < length (remaining orch)"
  proof
    assume a: "set w \<subseteq> set (remaining oc) \<and> length (remaining oc) \<le> length (remaining orch)"
    with ne have "last w \<in> set (remaining oc)" using last_in_set by blast
    from length_remaining_drop_candidate_less [OF this] a show ?thesis by simp
  next
    assume "length (remaining oc) < length (remaining orch)"
    with length_remaining_drop_candidate [of "last w" oc] show ?thesis by simp
  qed
next
  fix w :: "Suggestion list" and oc :: Orch and start_loc found placed
  assume P: "(set w \<subseteq> set (remaining oc) \<and> length (remaining oc) \<le> length (remaining orch))
             \<or> length (remaining oc) < length (remaining orch)" and ne: "w \<noteq> []"
    and e: "enumerate_best_order w (Some start_loc)
             (if gaps = [] then None else Some (end_location (last gaps))) permutation_limit = Inr found"
  let ?c = "commit (fst found) (fst (snd found)) (snd (snd found))
              (fst placed) (fst (snd placed)) (snd (snd placed)) oc"
  from enumerate_best_order_perm [OF e] have m: "mset (fst found) = mset w" .
  then have s: "set (fst found) = set w" by (rule mset_eq_setD)
  from P have "length (remaining ?c) < length (remaining orch)"
  proof
    assume a: "set w \<subseteq> set (remaining oc) \<and> length (remaining oc) \<le> length (remaining orch)"
    from ne obtain y where y: "y \<in> set w" by (cases w) auto
    with a s have "y \<in> set (fst found)" "y \<in> set (remaining oc)" by auto
    from length_foldl_remove1_less [OF this] a show ?thesis by (simp add: commit_def)
  next
    assume "length (remaining oc) < length (remaining orch)"
    with length_remaining_commit [of "fst found" _ _ _ _ _ oc] show ?thesis
      by (meson le_less_trans)
  qed
  then show "length (remaining ?c) \<le> length (remaining orch) \<and>
             (True \<longrightarrow> length (remaining ?c) < length (remaining orch))"
    by simp
next
  fix w :: "Suggestion list" and oc :: Orch
  assume "(set w \<subseteq> set (remaining oc) \<and> length (remaining oc) \<le> length (remaining orch))
          \<or> length (remaining oc) < length (remaining orch)"
  then show "length (remaining oc) \<le> length (remaining orch) \<and>
             (False \<longrightarrow> length (remaining oc) < length (remaining orch))"
    by auto
qed

text \<open>
  The main loop over the optional suggestions. \<open>optional_step\<close> is one turn of
  \<^verbatim>\<open>while remaining\<close>, test included: the flag tells whether the loop goes on
  (\<^verbatim>\<open>continue\<close>) or stops (\<^verbatim>\<open>break\<close>, or the list is empty).
\<close>

definition has_preference :: "Suggestion \<Rightarrow> bool" where
  "has_preference s = (case location_preference s of None \<Rightarrow> False | Some p \<Rightarrow> p \<noteq> [])"

definition optional_step ::
  "Gap list \<Rightarrow> (string \<rightharpoonup> string \<times> string) \<Rightarrow> real \<Rightarrow> int \<Rightarrow> real \<Rightarrow> real \<Rightarrow> Suggestion list \<Rightarrow>
   Orch \<Rightarrow> py_error + (bool \<times> Orch)" where
  "optional_step gaps gap_labels max_distance permutation_limit tolerance resolution_minutes
     optional orch =
     (if remaining orch = [] then Inr (False, orch)
      else
        (let capacity = remaining_capacity gaps (state orch) tolerance
         in if capacity \<le> tolerance then Inr (False, orch)
            else
              (let optional_remaining = filter (\<lambda>s. s \<in> set (remaining orch)) optional
               in if optional_remaining = [] then Inr (False, orch)
                  else
                    (case greedy_select_candidates double_add double_div optional_remaining gaps max_distance
                            (Some capacity) tolerance resolution_minutes of
                       Inl e \<Rightarrow> Inl e
                     | Inr chosen \<Rightarrow>
                         if chosen = [] then Inr (False, orch)
                         else
                           (let selected = sort_key (\<lambda>s. - score s) chosen;
                                location_selected =
                                  filter (\<lambda>s. has_preference s \<and> s \<in> set (remaining orch)) selected
                            in case (if location_selected \<noteq> []
                                     then schedule_group gaps gap_labels permutation_limit
                                            tolerance location_selected orch
                                     else Inr (False, orch)) of
                                 Inl e \<Rightarrow> Inl e
                               | Inr r1 \<Rightarrow>
                                   if fst r1 then Inr (True, snd r1)
                                   else
                                     (let flexible_selected =
                                            filter (\<lambda>s. \<not> has_preference s \<and>
                                                         s \<in> set (remaining (snd r1))) selected
                                      in if flexible_selected = [] then Inr (False, snd r1)
                                         else schedule_group gaps gap_labels permutation_limit
                                                tolerance flexible_selected (snd r1)))))))"

lemma optional_step_length_remaining:
  assumes "optional_step gaps gap_labels max_distance permutation_limit tolerance
             resolution_minutes optional orch = Inr (True, orch')"
  shows "length (remaining orch') < length (remaining orch)"
proof -
  from assms obtain chosen where
    ch: "greedy_select_candidates double_add double_div
           (filter (\<lambda>s. s \<in> set (remaining orch)) optional) gaps max_distance
           (Some (remaining_capacity gaps (state orch) tolerance)) tolerance resolution_minutes
         = Inr chosen"
    by (auto simp: optional_step_def Let_def split: if_splits sum.splits)
  let ?sel = "sort_key (\<lambda>s. - score s) chosen"
  let ?loc = "filter (\<lambda>s. has_preference s \<and> s \<in> set (remaining orch)) ?sel"
  let ?first = "if ?loc \<noteq> [] then schedule_group gaps gap_labels permutation_limit tolerance ?loc orch
                else Inr (False, orch)"
  from assms ch obtain r1 where r1: "?first = Inr r1"
    by (auto simp: optional_step_def Let_def split: if_splits sum.splits)
  obtain ok1 o1 where r1': "r1 = (ok1, o1)" by (cases r1)
  have le1: "length (remaining o1) \<le> length (remaining orch)"
    and lt1: "ok1 \<Longrightarrow> length (remaining o1) < length (remaining orch)"
    using r1 r1' schedule_group_length_remaining [of gaps gap_labels permutation_limit tolerance ?loc orch ok1 o1]
    by (auto split: if_splits)
  show ?thesis
  proof (cases ok1)
    case True
    with assms ch r1 r1' have "orch' = o1"
      by (auto simp: optional_step_def Let_def split: if_splits sum.splits)
    with lt1 [OF True] show ?thesis by simp
  next
    case False
    let ?flex = "filter (\<lambda>s. \<not> has_preference s \<and> s \<in> set (remaining o1)) ?sel"
    from assms ch r1 r1' False
    have "schedule_group gaps gap_labels permutation_limit tolerance ?flex o1 = Inr (True, orch')"
      by (auto simp: optional_step_def Let_def split: if_splits sum.splits)
    from schedule_group_length_remaining [OF this] le1 show ?thesis by simp
  qed
qed

function optional_loop ::
  "Gap list \<Rightarrow> (string \<rightharpoonup> string \<times> string) \<Rightarrow> real \<Rightarrow> int \<Rightarrow> real \<Rightarrow> real \<Rightarrow> Suggestion list \<Rightarrow>
   Orch \<Rightarrow> py_error + Orch" where
  "optional_loop gaps gap_labels max_distance permutation_limit tolerance resolution_minutes
     optional orch =
     (case optional_step gaps gap_labels max_distance permutation_limit tolerance
             resolution_minutes optional orch of
        Inl e \<Rightarrow> Inl e
      | Inr r \<Rightarrow>
          if fst r
          then optional_loop gaps gap_labels max_distance permutation_limit tolerance
                 resolution_minutes optional (snd r)
          else Inr (snd r))"
  by pat_completeness auto
termination
proof (relation "measure (\<lambda>(gaps, gap_labels, max_distance, permutation_limit, tolerance,
                            resolution_minutes, optional, orch). length (remaining orch))")
  show "wf (measure (\<lambda>(gaps, gap_labels, max_distance, permutation_limit, tolerance,
                       resolution_minutes, optional, orch :: Orch). length (remaining orch)))"
    by simp
next
  fix gaps gap_labels max_distance permutation_limit tolerance resolution_minutes optional
    and orch :: Orch and r
  assume "optional_step gaps gap_labels max_distance permutation_limit tolerance
            resolution_minutes optional orch = Inr r" and "fst r"
  then have "optional_step gaps gap_labels max_distance permutation_limit tolerance
               resolution_minutes optional orch = Inr (True, snd r)"
    by (cases r) simp
  from optional_step_length_remaining [OF this]
  show "((gaps, gap_labels, max_distance, permutation_limit, tolerance, resolution_minutes,
          optional, snd r),
         (gaps, gap_labels, max_distance, permutation_limit, tolerance, resolution_minutes,
          optional, orch))
        \<in> measure (\<lambda>(gaps, gap_labels, max_distance, permutation_limit, tolerance,
                      resolution_minutes, optional, orch). length (remaining orch))"
    by simp
qed

declare optional_loop.simps [simp del]

definition infeasible_result :: "Suggestion list \<Rightarrow> real \<Rightarrow> ScheduleResult" where
  "infeasible_result suggestion_list total_gap_time =
     \<lparr>ordered_suggestions = [], scheduled_blocks = [], travel_cost = 0,
      dropped_suggestions = suggestion_list, unused_gap_time = total_gap_time,
      permutations_evaluated = 0, allocated_minutes = Map.empty, movement_log = []\<rparr>"

definition initial_orch :: "Suggestion list \<Rightarrow> Suggestion list \<Rightarrow> Orch" where
  "initial_orch mandatory optional =
     \<lparr>remaining = mandatory @ optional, state = None, ordered_total = [],
      scheduled_blocks_total = [], allocated_minutes_total = Map.empty,
      movement_log_total = [], dropped_total = [], total_travel_cost = 0,
      permutations_total = 0\<rparr>"

text \<open>The statements after the main loop: sort the blocks, measure what is left, list the drops.\<close>

definition finish :: "Gap list \<Rightarrow> real \<Rightarrow> Orch \<Rightarrow> ScheduleResult" where
  "finish gaps tolerance orch =
     \<lparr>ordered_suggestions = ordered_total orch,
      scheduled_blocks = sort_key (\<lambda>b. (block_gap_id b, start_offset b)) (scheduled_blocks_total orch),
      travel_cost = total_travel_cost orch,
      dropped_suggestions =
        dropped_total orch @ filter (\<lambda>s. s \<notin> set (dropped_total orch)) (remaining orch),
      unused_gap_time =
        (case state orch of
           None \<Rightarrow> total_gap_minutes gaps
         | Some st \<Rightarrow> remaining_capacity gaps (Some st) tolerance),
      permutations_evaluated = permutations_total orch,
      allocated_minutes = allocated_minutes_total orch,
      movement_log = movement_log_total orch\<rparr>"

definition schedule_suggestions ::
  "Suggestion list \<Rightarrow> Gap list \<Rightarrow> real \<Rightarrow> int \<Rightarrow> real \<Rightarrow> real \<Rightarrow> py_error + ScheduleResult" where
  "schedule_suggestions suggestions gaps max_distance permutation_limit tolerance resolution_minutes =
     (let gap_list = gaps; suggestion_list = suggestions;
          gap_labels = resolve_gap_labels gap_list
      in if gap_list = [] then Inr (infeasible_result suggestion_list 0)
         else
           (let mandatory = filter (is_mandatory tolerance) suggestion_list;
                optional = filter (\<lambda>s. s \<notin> set mandatory) suggestion_list;
                total_gap_time = total_gap_minutes gap_list;
                total_mand_duration = sum_list (map duration mandatory)
            in if total_mand_duration > total_gap_time + tolerance
               then Inr (infeasible_result suggestion_list total_gap_time)
               else
                 (let orch0 = initial_orch mandatory optional;
                      mandatory_remaining = filter (\<lambda>s. s \<in> set (remaining orch0)) mandatory
                  in case (if mandatory_remaining \<noteq> []
                           then schedule_group gap_list gap_labels permutation_limit tolerance
                                  mandatory_remaining orch0
                           else Inr (True, orch0)) of
                       Inl e \<Rightarrow> Inl e
                     | Inr r \<Rightarrow>
                         if \<not> fst r then Inr (infeasible_result suggestion_list total_gap_time)
                         else
                           (case optional_loop gap_list gap_labels max_distance permutation_limit
                                   tolerance resolution_minutes optional (snd r) of
                              Inl e \<Rightarrow> Inl e
                            | Inr orch \<Rightarrow> Inr (finish gap_list tolerance orch)))))"

subsection \<open>Travel cost of an ordering, as the specification words it\<close>

text \<open>
  The total travel minutes of an ordering: the leg from the start anchor to the first
  suggestion, the legs between consecutive suggestions, and the leg from the last suggestion
  to the end anchor; a leg whose anchor is absent is left out.
\<close>

fun consecutive_legs :: "Suggestion list \<Rightarrow> real" where
  "consecutive_legs [] = 0"
| "consecutive_legs [x] = 0"
| "consecutive_legs (x # y # rest) =
     snd (travel_minutes_between (location x) (location y)) + consecutive_legs (y # rest)"

definition total_travel_minutes ::
  "Coordinate option \<Rightarrow> Coordinate option \<Rightarrow> Suggestion list \<Rightarrow> real" where
  "total_travel_minutes start_anchor end_anchor order =
     (case start_anchor of
        None \<Rightarrow> 0
      | Some a \<Rightarrow> snd (travel_minutes_between a (location (hd order))))
     + consecutive_legs order
     + (case end_anchor of
          None \<Rightarrow> 0
        | Some e \<Rightarrow> snd (travel_minutes_between (location (last order)) e))"

subsection \<open>The knapsack problem the selector solves\<close>

text \<open>
  The discretized weight of an item in the specification's words,
  \<open>max(1, round(duration / resolution))\<close>, and the total score of a selection as the
  program accumulates it: from zero, one score after the other in the order of the list,
  every addition rounded. Then the textbook recurrence for the best such total of a
  selection from a list of items within a weight budget (the head of the list being the
  item added last), the test whether the head item belongs to a best selection, and the
  selection read off from the recurrence: the dynamic programme and its backtracking loop
  are shown to compute these.
\<close>

definition discretized_weight :: "(real \<Rightarrow> real \<Rightarrow> real) \<Rightarrow> real \<Rightarrow> Suggestion \<Rightarrow> int" where
  "discretized_weight fdiv resolution_minutes s =
     max 1 (py_round (fdiv (duration s) resolution_minutes))"

definition running_total :: "(real \<Rightarrow> real \<Rightarrow> real) \<Rightarrow> Suggestion list \<Rightarrow> real" where
  "running_total fadd selection = foldl (\<lambda>total s. fadd total (score s)) 0 selection"

fun knapsack_best ::
  "(real \<Rightarrow> real \<Rightarrow> real) \<Rightarrow> (Suggestion \<Rightarrow> nat) \<Rightarrow> Suggestion list \<Rightarrow> nat \<Rightarrow> real" where
  "knapsack_best fadd wt [] w = 0"
| "knapsack_best fadd wt (s # rest) w =
     (if wt s \<le> w \<and>
         fadd (knapsack_best fadd wt rest (w - wt s)) (score s) > knapsack_best fadd wt rest w
      then fadd (knapsack_best fadd wt rest (w - wt s)) (score s)
      else knapsack_best fadd wt rest w)"

definition knapsack_take ::
  "(real \<Rightarrow> real \<Rightarrow> real) \<Rightarrow> (Suggestion \<Rightarrow> nat) \<Rightarrow> Suggestion list \<Rightarrow> Suggestion \<Rightarrow> nat \<Rightarrow> bool" where
  "knapsack_take fadd wt rest s w \<longleftrightarrow>
     wt s \<le> w \<and>
     fadd (knapsack_best fadd wt rest (w - wt s)) (score s) > knapsack_best fadd wt rest w"

fun knapsack_solution ::
  "(real \<Rightarrow> real \<Rightarrow> real) \<Rightarrow> (Suggestion \<Rightarrow> nat) \<Rightarrow> Suggestion list \<Rightarrow> nat \<Rightarrow> Suggestion list" where
  "knapsack_solution fadd wt [] w = []"
| "knapsack_solution fadd wt (s # rest) w =
     (if knapsack_take fadd wt rest s w then s # knapsack_solution fadd wt rest (w - wt s)
      else knapsack_solution fadd wt rest w)"

definition weights_values :: "(Suggestion \<Rightarrow> nat) \<Rightarrow> Suggestion list \<Rightarrow> (nat \<times> real) list" where
  "weights_values wt items = map (\<lambda>s. (wt s, score s)) items"

subsection \<open>Minutes recorded against a gap\<close>

text \<open>
  The part of a travel leg that is charged to a gap (legs of at most the tolerance are not),
  the usage a gap carries into a placement call from the allocation state passed in, and
  the activity minutes of the blocks recorded under a gap id. A movement log entry does not
  name the gap it was charged to, so the travel legs enter through totals: the minutes of
  all blocks, the minutes of all logged legs, and the minutes recorded against all gaps.
\<close>

definition charged :: "real \<Rightarrow> real \<Rightarrow> real" where
  "charged tolerance t = (if t > tolerance then t else 0)"







subsection \<open>Location preferences and where a block sits\<close>

text \<open>
  A stored preference that is not empty and not the recognised \<^verbatim>\<open>near_home\<close>; a suggestion
  that is not mandatory and carries \<^verbatim>\<open>near_home\<close>. A block sits at the very start of the
  first gap when it is recorded under that gap's id and nothing precedes it but the charged
  travel leg from the gap's start; it sits in the last gap when it is recorded under that
  gap's id; it sits at the very end of the last gap when, in addition, the block and the
  charged travel leg to the gap's end reach the gap's duration within the tolerance.
  \<open>placed_as\<close> says that a block was made for a suggestion: it carries its id, duration
  and location, and if the suggestion is an optional \<^verbatim>\<open>near_home\<close> one the block sits at
  the start of the first gap or in the last gap.
\<close>

definition unsupported_preference :: "Suggestion \<Rightarrow> bool" where
  "unsupported_preference s \<longleftrightarrow>
     (case location_preference s of None \<Rightarrow> False | Some p \<Rightarrow> p \<noteq> [] \<and> p \<noteq> ''near_home'')"

definition near_home_optional :: "real \<Rightarrow> Suggestion \<Rightarrow> bool" where
  "near_home_optional tolerance s \<longleftrightarrow>
     \<not> is_mandatory tolerance s \<and> location_preference s = Some ''near_home''"

definition at_first_gap_start :: "Gap list \<Rightarrow> real \<Rightarrow> Suggestion \<Rightarrow> ScheduledBlock \<Rightarrow> bool" where
  "at_first_gap_start gaps tolerance s b \<longleftrightarrow>
     block_gap_id b = gap_id (gaps ! 0) \<and>
     start_offset b =
       charged tolerance (snd (travel_minutes_between (start_location (gaps ! 0)) (location s)))"

definition in_last_gap :: "Gap list \<Rightarrow> ScheduledBlock \<Rightarrow> bool" where
  "in_last_gap gaps b \<longleftrightarrow> block_gap_id b = gap_id (last gaps)"

definition placed_as :: "Gap list \<Rightarrow> real \<Rightarrow> ScheduledBlock \<Rightarrow> Suggestion \<Rightarrow> bool" where
  "placed_as gaps tolerance b s \<longleftrightarrow>
     block_suggestion_id b = suggestion_id s \<and> block_duration b = duration s \<and>
     block_location b = location s \<and>
     (near_home_optional tolerance s \<longrightarrow>
        at_first_gap_start gaps tolerance s b \<or> in_last_gap gaps b)"

subsection \<open>Concrete inputs\<close>

text \<open>
  A mandatory suggestion half a microminute longer than the only gap, under the default
  tolerance of \<open>10\<^sup>-\<^sup>6\<close>, and the pair of the source's own test
  \<^verbatim>\<open>test_mandatory_infeasible\<close> (150 minutes against a gap of 100).
\<close>

definition near_fit_suggestion :: Suggestion where
  "near_fit_suggestion =
     \<lparr>suggestion_id = ''A'', need = 1, importance = 1 / 2, duration = 120000001 / 2000000,
      location = (0, 0), location_preference = None, score = 3 / 2,
      min_duration = 120000001 / 2000000, max_duration = 120000001 / 2000000\<rparr>"

definition hour_gap :: Gap where
  "hour_gap =
     \<lparr>gap_id = ''g1'', gap_duration = 60, start_location = (0, 0), end_location = (0, 0),
      start_label = None, end_label = None\<rparr>"

definition long_suggestion :: Suggestion where
  "long_suggestion =
     \<lparr>suggestion_id = ''A'', need = 1, importance = 1 / 2, duration = 150,
      location = (0, 0), location_preference = None, score = 3 / 2,
      min_duration = 150, max_duration = 150\<rparr>"

definition hundred_gap :: Gap where
  "hundred_gap =
     \<lparr>gap_id = ''g1'', gap_duration = 100, start_location = (0, 0), end_location = (0, 0),
      start_label = None, end_label = None\<rparr>"

text \<open>The two stops of the source's \<^verbatim>\<open>test_travel_minutes_units\<close>.\<close>

definition origin_stop :: Suggestion where
  "origin_stop =
     \<lparr>suggestion_id = ''s1'', need = 0, importance = 1 / 2, duration = 10,
      location = (0, 0), location_preference = None, score = 1 / 2,
      min_duration = 10, max_duration = 10\<rparr>"

definition east_stop :: Suggestion where
  "east_stop =
     \<lparr>suggestion_id = ''s2'', need = 0, importance = 3 / 5, duration = 10,
      location = (1, 0), location_preference = None, score = 3 / 5,
      min_duration = 10, max_duration = 10\<rparr>"


text \<open>
  Three suggestions whose scores are the doubles 0.1, 0.2 and 0.1 + 0.2 (the float sum,
  0.30000000000000004), written as the fractions these doubles are.
\<close>

definition snack :: Suggestion where
  "snack = \<lparr>suggestion_id = ''B'', need = 3602879701896397 / 2 ^ 55, importance = 0, duration = 1,
     location = (0, 0), location_preference = None, score = 3602879701896397 / 2 ^ 55,
     min_duration = 1, max_duration = 1\<rparr>"

definition nap :: Suggestion where
  "nap = \<lparr>suggestion_id = ''C'', need = 3602879701896397 / 2 ^ 54, importance = 0, duration = 1,
     location = (0, 0), location_preference = None, score = 3602879701896397 / 2 ^ 54,
     min_duration = 1, max_duration = 1\<rparr>"

definition lecture :: Suggestion where
  "lecture = \<lparr>suggestion_id = ''A'', need = 3602879701896397 / 2 ^ 55,
     importance = 3602879701896397 / 2 ^ 54, duration = 2,
     location = (0, 0), location_preference = None, score = 5404319552844596 / 2 ^ 54,
     min_duration = 2, max_duration = 2\<rparr>"






text \<open>
  A day with a gap of one minute that starts at home and a gap of three minutes that ends
  at home; a mandatory chore, two optional \<^verbatim>\<open>near_home\<close> suggestions of one minute each,
  and an optional errand with a preference the engine does not know. Then the labels of
  the two gaps, the allocation states after the chore and after the two optional
  suggestions, and the blocks of the day.
\<close>

definition chore :: Suggestion where
  "chore = \<lparr>suggestion_id = ''A'', need = 1, importance = 1 / 2, duration = 1,
     location = (0, 0), location_preference = None, score = 3 / 2,
     min_duration = 1, max_duration = 1\<rparr>"



definition errand :: Suggestion where
  "errand = \<lparr>suggestion_id = ''E'', need = 1 / 2, importance = 1 / 2, duration = 1,
     location = (0, 0), location_preference = Some ''midtown'', score = 1,
     min_duration = 1, max_duration = 1\<rparr>"

definition morning_gap :: Gap where
  "morning_gap = \<lparr>gap_id = ''g1'', gap_duration = 1, start_location = (0, 0),
     end_location = (0, 0), start_label = None, end_label = None\<rparr>"

definition evening_gap :: Gap where
  "evening_gap = \<lparr>gap_id = ''g2'', gap_duration = 3, start_location = (0, 0),
     end_location = (0, 0), start_label = None, end_label = None\<rparr>"

definition day_labels :: "string \<rightharpoonup> string \<times> string" where
  "day_labels = [''g1'' \<mapsto> (''home'', ''g1:end''), ''g2'' \<mapsto> (''g2:start'', ''home'')]"

definition after_chore :: AllocationState where
  "after_chore = \<lparr>gap_usage = [''g2'' \<mapsto> 0, ''g1'' \<mapsto> 1], gap_index = 1,
     current_cursor = None, current_label = None, gap_has_blocks = False\<rparr>"


definition day_blocks :: "ScheduledBlock list" where
  "day_blocks =
     [\<lparr>block_suggestion_id = ''A'', block_gap_id = ''g1'',
        start_offset = 0, block_duration = 1, block_location = (0, 0)\<rparr>,
      \<lparr>block_suggestion_id = ''B1'', block_gap_id = ''g2'',
        start_offset = 0, block_duration = 1, block_location = (0, 0)\<rparr>,
      \<lparr>block_suggestion_id = ''B2'', block_gap_id = ''g2'',
        start_offset = 1, block_duration = 1, block_location = (0, 0)\<rparr>]"
section \<open>Properties\<close>

subsection \<open>Evaluation helpers\<close>

lemma travel_minutes_between_same [simp]: "travel_minutes_between a a = (0, 0)"
  by (simp add: travel_minutes_between_def euclidean_distance_def)

lemma itertools_permutations_single: "itertools_permutations [x] = [[x]]"
  by (simp add: itertools_permutations.simps)

subsection \<open>Rounding to doubles\<close>

text \<open>
  Python's \<^verbatim>\<open>round\<close> and the rounding of an exact result to a double are monotone and
  odd; hence the addition of doubles is monotone in the accumulated total, which is all
  the selector's optimality needs. The last lemmas evaluate the rounding within a binade.
\<close>

lemma py_round_bounds: "x - 1 / 2 \<le> of_int (py_round x) \<and> of_int (py_round x) \<le> x + 1 / 2"
  unfolding py_round_def Let_def by (auto; linarith)

lemma py_round_mono: "x \<le> y \<Longrightarrow> py_round x \<le> py_round y"
proof -
  assume xy: "x \<le> y"
  have fl: "\<lfloor>x\<rfloor> \<le> \<lfloor>y\<rfloor>" using xy by (rule floor_mono)
  show ?thesis
  proof (cases "\<lfloor>x\<rfloor> = \<lfloor>y\<rfloor>")
    case True
    with xy show ?thesis unfolding py_round_def Let_def by auto
  next
    case False
    with fl have "\<lfloor>x\<rfloor> + 1 \<le> \<lfloor>y\<rfloor>" by simp
    moreover have "py_round x \<le> \<lfloor>x\<rfloor> + 1" unfolding py_round_def Let_def by auto
    moreover have "\<lfloor>y\<rfloor> \<le> py_round y" unfolding py_round_def Let_def by auto
    ultimately show ?thesis by linarith
  qed
qed

lemma py_round_of_int: "py_round (of_int n) = n"
  by (simp add: py_round_def)

lemma py_round_minus: "py_round (- x) = - py_round x"
proof (cases "x \<in> \<int>")
  case True
  then obtain n where "x = of_int n" by (auto elim: Ints_cases)
  then show ?thesis by (simp add: py_round_of_int flip: of_int_minus)
next
  case False
  then have "x \<noteq> of_int \<lfloor>x\<rfloor>" by (metis Ints_of_int)
  then have f: "\<lfloor>- x\<rfloor> = - \<lfloor>x\<rfloor> - 1" by (simp add: floor_minus ceiling_altdef)
  show ?thesis unfolding py_round_def Let_def f
    by (auto; linarith?)
qed

lemma double_ulp_binade:
  assumes "2 powr of_int k \<le> \<bar>x\<bar>" "\<bar>x\<bar> < 2 powr of_int (k + 1)"
  shows "double_ulp x = 2 powr of_int (max k (- 1022) - 52)"
proof -
  from assms have "0 < \<bar>x\<bar>" by (smt (verit) powr_gt_zero)
  then have "\<lfloor>log 2 \<bar>x\<bar>\<rfloor> = k"
    using assms by (subst floor_log_eq_powr_iff) simp_all
  then show ?thesis by (simp add: double_ulp_def double_exp_def)
qed


lemma double_ulp_exp: "double_ulp x = 2 powr of_int (double_exp x - 52)"
  by (simp add: double_ulp_def)

lemma double_ulp_pos: "0 < double_ulp x"
  by (simp add: double_ulp_def)

lemma double_ulp_minus: "double_ulp (- x) = double_ulp x"
  by (simp add: double_ulp_def double_exp_def)

lemma round_to_double_minus: "round_to_double (- x) = - round_to_double x"
  by (simp add: round_to_double_def double_ulp_minus py_round_minus)

lemma py_round_nonneg: "0 \<le> x \<Longrightarrow> 0 \<le> py_round x"
  using py_round_mono [of 0 x] py_round_of_int [of 0] by simp

lemma round_to_double_nonneg: "0 \<le> x \<Longrightarrow> 0 \<le> round_to_double x"
proof -
  assume x: "0 \<le> x"
  with double_ulp_pos [of x] have "0 \<le> x / double_ulp x" by simp
  from py_round_nonneg [OF this] double_ulp_pos [of x] show ?thesis
    by (simp add: round_to_double_def)
qed

lemma pow2_int: "(2::real) powr of_int (int n) = of_int (2 ^ n)"
  by (simp add: powr_realpow)

lemma below_next_binade:
  assumes "0 < x"
  shows "x < 2 powr of_int (double_exp x + 1)"
proof -
  have "log 2 x < of_int (\<lfloor>log 2 x\<rfloor> + 1)" by linarith
  also have "\<dots> \<le> of_int (double_exp x + 1)"
    using assms by (simp add: double_exp_def)
  finally have "2 powr log 2 x < 2 powr of_int (double_exp x + 1)"
    by simp
  with assms show ?thesis by simp
qed

lemma round_to_double_upper:
  assumes "0 < x"
  shows "round_to_double x \<le> 2 powr of_int (double_exp x + 1)"
proof -
  let ?u = "double_ulp x"
  have u: "0 < ?u" by (rule double_ulp_pos)
  have "(of_int (double_exp x + 1) :: real) = of_int (int 53) + of_int (double_exp x - 52)"
    by simp
  then have split: "2 powr of_int (double_exp x + 1) = 2 powr of_int (int 53) * ?u"
    unfolding double_ulp_exp by (simp only: powr_add)
  from below_next_binade [OF assms] u have "x / ?u \<le> 2 powr of_int (int 53)"
    unfolding split by (simp add: pos_divide_le_eq less_imp_le)
  then have "x / ?u \<le> of_int (2 ^ 53)" by (simp only: pow2_int)
  from py_round_mono [OF this] have "py_round (x / ?u) \<le> 2 ^ 53"
    by (simp only: py_round_of_int)
  then have "(of_int (py_round (x / ?u)) :: real) \<le> of_int (2 ^ 53)"
    by (simp only: of_int_le_iff)
  then have "of_int (py_round (x / ?u)) * ?u \<le> of_int (2 ^ 53) * ?u"
    using u by (simp only: mult_le_cancel_right_pos)
  with assms show ?thesis
    unfolding split pow2_int by (simp add: round_to_double_def)
qed

lemma round_to_double_lower:
  assumes "0 < y" and n: "- 1022 \<le> \<lfloor>log 2 y\<rfloor>"
  shows "2 powr of_int \<lfloor>log 2 y\<rfloor> \<le> round_to_double y"
proof -
  let ?u = "double_ulp y" and ?k = "\<lfloor>log 2 y\<rfloor>"
  have u: "0 < ?u" by (rule double_ulp_pos)
  from n assms have e: "double_exp y = ?k" by (simp add: double_exp_def)
  have "(of_int ?k :: real) = of_int (int 52) + of_int (?k - 52)"
    by simp
  then have split: "2 powr of_int ?k = 2 powr of_int (int 52) * ?u"
    unfolding double_ulp_exp e by (simp only: powr_add)
  have "of_int ?k \<le> log 2 y" by simp
  then have "2 powr of_int ?k \<le> 2 powr log 2 y" by simp
  with assms have "2 powr of_int ?k \<le> y" by simp
  with u have "2 powr of_int (int 52) \<le> y / ?u"
    unfolding split by (simp add: pos_le_divide_eq)
  then have "of_int (2 ^ 52) \<le> y / ?u" by (simp only: pow2_int)
  from py_round_mono [OF this] have "2 ^ 52 \<le> py_round (y / ?u)"
    by (simp only: py_round_of_int)
  then have "(of_int (2 ^ 52) :: real) \<le> of_int (py_round (y / ?u))"
    by (simp only: of_int_le_iff)
  then have "of_int (2 ^ 52) * ?u \<le> of_int (py_round (y / ?u)) * ?u"
    using u by (simp only: mult_le_cancel_right_pos)
  with assms show ?thesis
    unfolding split pow2_int by (simp add: round_to_double_def)
qed

lemma round_to_double_mono_pos:
  assumes x: "0 < x" and xy: "x \<le> y"
  shows "round_to_double x \<le> round_to_double y"
proof -
  from x xy have y: "0 < y" by simp
  from x xy have "log 2 x \<le> log 2 y" by simp
  then have fl: "\<lfloor>log 2 x\<rfloor> \<le> \<lfloor>log 2 y\<rfloor>" by (rule floor_mono)
  with x y have ee: "double_exp x \<le> double_exp y" by (simp add: double_exp_def)
  show ?thesis
  proof (cases "double_exp x = double_exp y")
    case True
    then have u: "double_ulp x = double_ulp y" by (simp add: double_ulp_exp)
    from xy double_ulp_pos [of y] have "x / double_ulp y \<le> y / double_ulp y"
      by (simp add: divide_right_mono)
    from py_round_mono [OF this] double_ulp_pos [of y] x y show ?thesis
      by (simp add: round_to_double_def u)
  next
    case False
    with ee have lt: "double_exp x + 1 \<le> double_exp y" by simp
    then have "- 1022 < double_exp y" by (simp add: double_exp_def)
    with y have k: "double_exp y = \<lfloor>log 2 y\<rfloor>" "- 1022 \<le> \<lfloor>log 2 y\<rfloor>"
      by (simp_all add: double_exp_def max_def split: if_splits)
    have "round_to_double x \<le> 2 powr of_int (double_exp x + 1)"
      by (rule round_to_double_upper [OF x])
    also from lt have "\<dots> \<le> 2 powr of_int (double_exp y)" by simp
    also have "\<dots> \<le> round_to_double y"
      unfolding k(1) by (rule round_to_double_lower [OF y k(2)])
    finally show ?thesis .
  qed
qed

lemma round_to_double_mono: "x \<le> y \<Longrightarrow> round_to_double x \<le> round_to_double y"
proof -
  assume xy: "x \<le> y"
  consider "0 < x" | "x \<le> 0" "0 \<le> y" | "y < 0" by linarith
  then show ?thesis
  proof cases
    case 1
    from round_to_double_mono_pos [OF 1 xy] show ?thesis .
  next
    case 2
    from round_to_double_nonneg [OF 2(2)] round_to_double_nonneg [of "- x"] 2(1)
    show ?thesis by (simp add: round_to_double_minus)
  next
    case 3
    then have "0 < - y" "- y \<le> - x" using xy by simp_all
    from round_to_double_mono_pos [OF this] show ?thesis
      by (simp add: round_to_double_minus)
  qed
qed

lemma double_add_mono: "x \<le> y \<Longrightarrow> double_add x v \<le> double_add y v"
  unfolding double_add_def by (rule round_to_double_mono) simp

lemma double_div_nonneg: "0 \<le> x \<Longrightarrow> 0 < y \<Longrightarrow> 0 \<le> double_div x y"
  unfolding double_div_def by (rule round_to_double_nonneg) simp


lemma round_to_double_binade:
  assumes "2 powr of_int k \<le> \<bar>x\<bar>" "\<bar>x\<bar> < 2 powr of_int (k + 1)" "- 1022 \<le> k"
  shows "round_to_double x = of_int (py_round (x / 2 powr of_int (k - 52))) * 2 powr of_int (k - 52)"
proof -
  from assms(1) have "x \<noteq> 0" by (smt (verit) powr_gt_zero)
  moreover from double_ulp_binade [OF assms(1,2)] assms(3)
  have "double_ulp x = 2 powr of_int (k - 52)" by simp
  ultimately show ?thesis by (simp add: round_to_double_def)
qed

lemma pow2_neg: "(2::real) powr of_int (- int n) = 1 / 2 ^ n"
  by (simp add: powr_minus powr_realpow divide_inverse)

lemma pow2_nat: "(2::real) powr of_int (int n) = 2 ^ n"
  by (simp add: powr_realpow)

lemma round_to_double_small:
  assumes "1 / 2 ^ n \<le> \<bar>x\<bar>" "\<bar>x\<bar> < 2 / 2 ^ n" "n \<le> 1022"
  shows "round_to_double x = of_int (py_round (x * 2 ^ (n + 52))) / 2 ^ (n + 52)"
proof -
  have a: "2 powr of_int (- int n) \<le> \<bar>x\<bar>" using assms(1) by (simp only: pow2_neg)
  have "(2::real) powr of_int (- int n + 1) = 2 powr of_int (- int n) * 2 powr 1"
    by (simp only: of_int_add of_int_1 powr_add)
  also have "\<dots> = 2 / 2 ^ n"
    by (simp only: pow2_neg) simp
  finally have "(2::real) powr of_int (- int n + 1) = 2 / 2 ^ n" .
  with assms(2) have b: "\<bar>x\<bar> < 2 powr of_int (- int n + 1)" by simp
  from assms(3) have c: "- 1022 \<le> - int n" by simp
  have "- int n - 52 = - int (n + 52)" by simp
  then have q: "(2::real) powr of_int (- int n - 52) = 1 / 2 ^ (n + 52)"
    by (simp only: pow2_neg)
  show ?thesis
    unfolding round_to_double_binade [OF a b c] q by simp
qed

lemma round_to_double_medium:
  assumes "2 ^ n \<le> \<bar>x\<bar>" "\<bar>x\<bar> < 2 * 2 ^ n" "n \<le> 52"
  shows "round_to_double x = of_int (py_round (x * 2 ^ (52 - n))) / 2 ^ (52 - n)"
proof -
  have a: "2 powr of_int (int n) \<le> \<bar>x\<bar>" using assms(1) by (simp only: pow2_nat)
  have "(2::real) powr of_int (int n + 1) = 2 powr of_int (int n) * 2 powr 1"
    by (simp only: of_int_add of_int_1 powr_add)
  also have "\<dots> = 2 * 2 ^ n"
    by (simp only: pow2_nat) simp
  finally have "(2::real) powr of_int (int n + 1) = 2 * 2 ^ n" .
  with assms(2) have b: "\<bar>x\<bar> < 2 powr of_int (int n + 1)" by simp
  have c: "- 1022 \<le> int n" by simp
  from assms(3) have "int n - 52 = - int (52 - n)" by simp
  then have q: "(2::real) powr of_int (int n - 52) = 1 / 2 ^ (52 - n)"
    by (simp only: pow2_neg)
  show ?thesis
    unfolding round_to_double_binade [OF a b c] q by simp
qed

lemma py_round_int_numeral: "py_round (numeral k) = numeral k"
  using py_round_of_int [of "numeral k"] by simp

lemma round_to_double_1: "round_to_double 1 = 1"
  by (subst round_to_double_medium [where n = 0]) (simp_all add: py_round_int_numeral)

lemma round_to_double_3: "round_to_double 3 = 3"
  by (subst round_to_double_medium [where n = 1]) (simp_all add: py_round_int_numeral)



lemma round_to_double_tie:
  "round_to_double (3602879701896397 / 2 ^ 55 + 3602879701896397 / 2 ^ 54) =
     5404319552844596 / 2 ^ 54"
  by (subst round_to_double_small [where n = 2]) (simp_all add: py_round_def)


lemma round_to_double_2: "round_to_double 2 = 2"
  by (subst round_to_double_medium [where n = 1]) (simp_all add: py_round_int_numeral)

lemma py_round_1: "py_round 1 = 1"
  by (simp add: py_round_def)

lemma round_to_double_tenth:
  "round_to_double (3602879701896397 / 36028797018963968) =
     3602879701896397 / 36028797018963968"
  by (subst round_to_double_small [where n = 4]) (simp_all add: py_round_int_numeral)

lemma round_to_double_fifth:
  "round_to_double (3602879701896397 / 18014398509481984) =
     3602879701896397 / 18014398509481984"
  by (subst round_to_double_small [where n = 3]) (simp_all add: py_round_int_numeral)

lemma round_to_double_three_tenths:
  "round_to_double (1351079888211149 / 4503599627370496) =
     1351079888211149 / 4503599627370496"
  by (subst round_to_double_small [where n = 2]) (simp_all add: py_round_int_numeral)

lemma round_to_double_tenth_plus_fifth:
  "round_to_double (10808639105689191 / 36028797018963968) =
     1351079888211149 / 4503599627370496"
  by (subst round_to_double_small [where n = 2]) (simp_all add: py_round_def)
subsection \<open>Empty gap list\<close>

text \<open>
  Claim C10. With an empty gap list \<^verbatim>\<open>schedule_suggestions\<close> does not raise, whatever the
  suggestions and the configuration: it returns no ordered suggestion and no block, the
  whole input list as dropped, travel cost 0, unused gap time 0, 0 permutations evaluated,
  an empty allocation dictionary and an empty movement log.
\<close>

theorem schedule_suggestions_no_gaps:
  "schedule_suggestions suggestions [] max_distance permutation_limit tolerance resolution_minutes =
     Inr \<lparr>ordered_suggestions = [], scheduled_blocks = [], travel_cost = 0,
          dropped_suggestions = suggestions, unused_gap_time = 0,
          permutations_evaluated = 0, allocated_minutes = Map.empty, movement_log = []\<rparr>"
  by (simp add: schedule_suggestions_def infeasible_result_def)

subsection \<open>Feasibility gate\<close>

text \<open>
  The run of \<^verbatim>\<open>schedule_suggestions\<close> on one mandatory suggestion of 60.0000005 minutes and
  one gap of 60 minutes, tolerance \<open>10\<^sup>-\<^sup>6\<close>: the gate compares against the gap time plus
  the tolerance, so it stays open, and the placement accepts the suggestion within the
  same tolerance.
\<close>

lemma near_fit_enumerate:
  "enumerate_best_order [near_fit_suggestion] (Some (0, 0)) (Some (0, 0)) 6 =
     Inr ([near_fit_suggestion], 0, 1)"
  by (simp add: enumerate_best_order_def itertools_permutations_single best_step_def
      permutation_cost_def near_fit_suggestion_def)

lemma hour_gap_labels: "resolve_gap_labels [hour_gap] = [''g1'' \<mapsto> (''home'', ''home'')]"
  by (simp add: resolve_gap_labels_def hour_gap_def label_or_def HOME_LABEL_def)

lemma near_fit_assign:
  "assign_order_to_gaps [near_fit_suggestion] [hour_gap] [''g1'' \<mapsto> (''home'', ''home'')]
     (1 / 1000000) None =
   Some ([\<lparr>block_suggestion_id = ''A'', block_gap_id = ''g1'', start_offset = 0,
            block_duration = 120000001 / 2000000, block_location = (0, 0)\<rparr>],
         \<lparr>gap_usage = [''g1'' \<mapsto> 120000001 / 2000000], gap_index = 1, current_cursor = None,
           current_label = None, gap_has_blocks = False\<rparr>, [])"
  by (simp add: assign_order_to_gaps_def initial_placement_def fresh_usage_def
      allocate_suggestion.simps place_step_def current_gap_def usage_get_def preference_blocks_def
      ensure_gap_exit_ok_def leave_gap_def state_of_def gap_start_label_def gap_end_label_def
      near_fit_suggestion_def hour_gap_def Let_def)

lemma near_fit_group:
  "schedule_group [hour_gap] [''g1'' \<mapsto> (''home'', ''home'')] 6 (1 / 1000000)
     [near_fit_suggestion] (initial_orch [near_fit_suggestion] []) =
   Inr (True,
        commit [near_fit_suggestion] 0 1
          [\<lparr>block_suggestion_id = ''A'', block_gap_id = ''g1'', start_offset = 0,
            block_duration = 120000001 / 2000000, block_location = (0, 0)\<rparr>]
          \<lparr>gap_usage = [''g1'' \<mapsto> 120000001 / 2000000], gap_index = 1, current_cursor = None,
            current_label = None, gap_has_blocks = False\<rparr> []
          (initial_orch [near_fit_suggestion] []))"
proof -
  have g: "start_location hour_gap = (0, 0)" "end_location hour_gap = (0, 0)"
    by (simp_all add: hour_gap_def)
  show ?thesis
    by (simp add: schedule_group_def initial_orch_def shrink_batch.simps try_working.simps
        starting_location_for_state_def g near_fit_enumerate near_fit_assign Let_def)
qed

lemma near_fit_run:
  "schedule_suggestions [near_fit_suggestion] [hour_gap] 3 6 (1 / 1000000) 1 =
     Inr \<lparr>ordered_suggestions = [near_fit_suggestion],
          scheduled_blocks =
            [\<lparr>block_suggestion_id = ''A'', block_gap_id = ''g1'', start_offset = 0,
              block_duration = 120000001 / 2000000, block_location = (0, 0)\<rparr>],
          travel_cost = 0, dropped_suggestions = [], unused_gap_time = 0,
          permutations_evaluated = 1,
          allocated_minutes = [''A'' \<mapsto> 120000001 / 2000000], movement_log = []\<rparr>"
proof -
  have m: "is_mandatory (1 / 1000000) near_fit_suggestion"
    by (simp add: is_mandatory_def MANDATORY_NEED_THRESHOLD_def near_fit_suggestion_def)
  have d: "duration near_fit_suggestion = 120000001 / 2000000" "score near_fit_suggestion = 3 / 2"
    by (simp_all add: near_fit_suggestion_def)
  have g: "gap_duration hour_gap = 60" by (simp add: hour_gap_def)
  show ?thesis
    apply (simp add: schedule_suggestions_def hour_gap_labels m total_gap_minutes_def d g
        near_fit_group Let_def)
    apply (simp add: initial_orch_def commit_def optional_loop.simps optional_step_def finish_def
        remaining_capacity_def usage_get_def)
    done
qed

text \<open>
  Claim C2, the special case as stated. A single mandatory suggestion whose duration exceeds
  the only gap's duration, by less than the tolerance, is scheduled and not dropped.
\<close>

theorem near_fit_mandatory_is_scheduled:
  "is_mandatory (1 / 1000000) near_fit_suggestion \<and>
   duration near_fit_suggestion > gap_duration hour_gap \<and>
   schedule_suggestions [near_fit_suggestion] [hour_gap] 3 6 (1 / 1000000) 1 =
     Inr \<lparr>ordered_suggestions = [near_fit_suggestion],
          scheduled_blocks =
            [\<lparr>block_suggestion_id = ''A'', block_gap_id = ''g1'', start_offset = 0,
              block_duration = 120000001 / 2000000, block_location = (0, 0)\<rparr>],
          travel_cost = 0, dropped_suggestions = [], unused_gap_time = 0,
          permutations_evaluated = 1,
          allocated_minutes = [''A'' \<mapsto> 120000001 / 2000000], movement_log = []\<rparr>"
proof -
  have m: "is_mandatory (1 / 1000000) near_fit_suggestion"
    by (simp add: is_mandatory_def MANDATORY_NEED_THRESHOLD_def near_fit_suggestion_def)
  have d: "duration near_fit_suggestion > gap_duration hour_gap"
    by (simp add: near_fit_suggestion_def hour_gap_def)
  from m d near_fit_run show ?thesis by simp
qed

text \<open>
  Claim C2, amended. For a non-empty gap list and mandatory suggestions whose total duration
  exceeds the total gap minutes plus the tolerance, the result has no ordered suggestion and
  no block, the whole input list as dropped, travel cost 0 and the total gap minutes as
  unused time. In particular a list whose single mandatory suggestion exceeds the only gap's
  duration by more than the tolerance yields no block and has that suggestion among the
  dropped ones.
\<close>

theorem feasibility_gate:
  "(gaps \<noteq> [] \<and>
    sum_list (map duration (filter (is_mandatory tolerance) suggestions))
      > total_gap_minutes gaps + tolerance \<longrightarrow>
    schedule_suggestions suggestions gaps max_distance permutation_limit tolerance
      resolution_minutes =
      Inr \<lparr>ordered_suggestions = [], scheduled_blocks = [], travel_cost = 0,
           dropped_suggestions = suggestions, unused_gap_time = total_gap_minutes gaps,
           permutations_evaluated = 0, allocated_minutes = Map.empty, movement_log = []\<rparr>) \<and>
   (filter (is_mandatory tolerance) suggestions = [s] \<and> gaps = [gap] \<and>
    duration s > gap_duration gap + tolerance \<longrightarrow>
    (\<exists>r. schedule_suggestions suggestions gaps max_distance permutation_limit tolerance
            resolution_minutes = Inr r \<and>
          scheduled_blocks r = [] \<and> s \<in> set (dropped_suggestions r)))"
proof (intro conjI impI)
  assume a: "gaps \<noteq> [] \<and>
    sum_list (map duration (filter (is_mandatory tolerance) suggestions))
      > total_gap_minutes gaps + tolerance"
  then show "schedule_suggestions suggestions gaps max_distance permutation_limit tolerance
      resolution_minutes =
      Inr \<lparr>ordered_suggestions = [], scheduled_blocks = [], travel_cost = 0,
           dropped_suggestions = suggestions, unused_gap_time = total_gap_minutes gaps,
           permutations_evaluated = 0, allocated_minutes = Map.empty, movement_log = []\<rparr>"
    by (simp add: schedule_suggestions_def infeasible_result_def Let_def)
next
  assume a: "filter (is_mandatory tolerance) suggestions = [s] \<and> gaps = [gap] \<and>
    duration s > gap_duration gap + tolerance"
  then have "s \<in> set (filter (is_mandatory tolerance) suggestions)" by simp
  then have "s \<in> set suggestions" by simp
  with a show "\<exists>r. schedule_suggestions suggestions gaps max_distance permutation_limit tolerance
            resolution_minutes = Inr r \<and>
          scheduled_blocks r = [] \<and> s \<in> set (dropped_suggestions r)"
    by (simp add: schedule_suggestions_def infeasible_result_def Let_def total_gap_minutes_def)
qed

theorem feasibility_gate_witness:
  "[hundred_gap] \<noteq> [] \<and>
   sum_list (map duration (filter (is_mandatory (1 / 1000000)) [long_suggestion]))
     > total_gap_minutes [hundred_gap] + 1 / 1000000 \<and>
   filter (is_mandatory (1 / 1000000)) [long_suggestion] = [long_suggestion] \<and>
   duration long_suggestion > gap_duration hundred_gap + 1 / 1000000 \<and>
   schedule_suggestions [long_suggestion] [hundred_gap] 3 6 (1 / 1000000) 1 =
     Inr \<lparr>ordered_suggestions = [], scheduled_blocks = [], travel_cost = 0,
          dropped_suggestions = [long_suggestion], unused_gap_time = 100,
          permutations_evaluated = 0, allocated_minutes = Map.empty, movement_log = []\<rparr> \<and>
   (\<exists>r. schedule_suggestions [long_suggestion] [hundred_gap] 3 6 (1 / 1000000) 1 = Inr r \<and>
        scheduled_blocks r = [] \<and> long_suggestion \<in> set (dropped_suggestions r))"
proof -
  have m: "is_mandatory (1 / 1000000) long_suggestion"
    by (simp add: is_mandatory_def MANDATORY_NEED_THRESHOLD_def long_suggestion_def)
  have d: "duration long_suggestion = 150" by (simp add: long_suggestion_def)
  have g: "gap_duration hundred_gap = 100" by (simp add: hundred_gap_def)
  from feasibility_gate [of "[hundred_gap]" "1 / 1000000" "[long_suggestion]" 3 6 1
      long_suggestion hundred_gap]
  show ?thesis
    by (simp add: m d g total_gap_minutes_def)
qed

subsection \<open>Ordering search\<close>

lemma picks_length_eq: "yr \<in> set (picks xs) \<Longrightarrow> Suc (length (snd yr)) = length xs"
  by (induction xs arbitrary: yr) auto

lemma length_picks: "length (picks xs) = length xs"
  by (induction xs) auto


lemma length_concat_const:
  assumes "\<And>x. x \<in> set l \<Longrightarrow> length (f x) = c"
  shows "length (concat (map f l)) = length l * c"
  using assms by (induction l) auto

lemma length_itertools_permutations:
  "length (itertools_permutations xs) = fact (length xs)"
proof (induction xs rule: itertools_permutations.induct)
  case (1 xs)
  show ?case
  proof (cases "xs = []")
    case True
    then show ?thesis by (simp add: itertools_permutations.simps)
  next
    case False
    then obtain n where n: "length xs = Suc n" by (cases xs) auto
    have "\<And>yr. yr \<in> set (picks xs) \<Longrightarrow>
        length (map ((#) (fst yr)) (itertools_permutations (snd yr))) = fact n"
    proof -
      fix yr assume a: "yr \<in> set (picks xs)"
      from picks_length_eq [OF a] n have "length (snd yr) = n" by simp
      with "1.IH" [OF False a]
      show "length (map ((#) (fst yr)) (itertools_permutations (snd yr))) = fact n" by simp
    qed
    from length_concat_const [of "picks xs" _ "fact n", OF this]
    have "length (itertools_permutations xs) = length xs * fact n"
      using False by (simp add: itertools_permutations.simps [of xs] length_picks)
    with n show ?thesis by simp
  qed
qed



lemma foldl_best_step:
  fixes ps :: "Suggestion list list" and s e
  defines "c \<equiv> permutation_cost s e"
  shows "let r = foldl (best_step s e) (None, None, 0) ps in
           snd (snd r) = length ps \<and>
           (if ps = [] then r = (None, None, 0)
            else (\<exists>k<length ps. fst r = Some (ps ! k) \<and> fst (snd r) = Some (c (ps ! k)) \<and>
                    (\<forall>j<k. c (ps ! k) < c (ps ! j)) \<and> (\<forall>j<length ps. c (ps ! k) \<le> c (ps ! j))))"
proof (induction ps rule: rev_induct)
  case Nil
  show ?case by simp
next
  case (snoc p ps)
  define r where "r = foldl (best_step s e) (None, None, 0) ps"
  have step: "foldl (best_step s e) (None, None, 0) (ps @ [p]) = best_step s e r p"
    by (simp add: r_def)
  show ?case
  proof (cases "ps = []")
    case True
    then show ?thesis by (simp add: best_step_def c_def)
  next
    case False
    with snoc obtain k where k: "k < length ps" "\<forall>j<k. c (ps ! k) < c (ps ! j)"
      "\<forall>j<length ps. c (ps ! k) \<le> c (ps ! j)"
      and r: "r = (Some (ps ! k), Some (c (ps ! k)), length ps)"
      by (cases r) (auto simp: Let_def r_def)
    show ?thesis
    proof (cases "c p < c (ps ! k)")
      case True
      have new: "best_step s e r p = (Some p, Some (c p), Suc (length ps))"
        using True by (simp add: r best_step_def c_def)
      have "\<forall>j<length ps. c p < c ((ps @ [p]) ! j)"
        using k(3) True by (auto simp: nth_append)
      moreover have "\<forall>j<length (ps @ [p]). c p \<le> c ((ps @ [p]) ! j)"
        using k(3) True by (auto simp: nth_append less_Suc_eq)
      ultimately have "\<exists>k'<length (ps @ [p]). Some p = Some ((ps @ [p]) ! k') \<and>
          Some (c p) = Some (c ((ps @ [p]) ! k')) \<and>
          (\<forall>j<k'. c ((ps @ [p]) ! k') < c ((ps @ [p]) ! j)) \<and>
          (\<forall>j<length (ps @ [p]). c ((ps @ [p]) ! k') \<le> c ((ps @ [p]) ! j))"
        by (intro exI [of _ "length ps"]) simp
      then show ?thesis unfolding step new Let_def by simp
    next
      case False
      have old: "best_step s e r p = (Some (ps ! k), Some (c (ps ! k)), Suc (length ps))"
        using False by (simp add: r best_step_def c_def)
      have "\<forall>j<length (ps @ [p]). c (ps ! k) \<le> c ((ps @ [p]) ! j)"
        using k(3) False by (auto simp: nth_append less_Suc_eq)
      moreover have "\<forall>j<k. c (ps ! k) < c ((ps @ [p]) ! j)"
        using k(1,2) by (auto simp: nth_append)
      ultimately have "\<exists>k'<length (ps @ [p]). Some (ps ! k) = Some ((ps @ [p]) ! k') \<and>
          Some (c (ps ! k)) = Some (c ((ps @ [p]) ! k')) \<and>
          (\<forall>j<k'. c ((ps @ [p]) ! k') < c ((ps @ [p]) ! j)) \<and>
          (\<forall>j<length (ps @ [p]). c ((ps @ [p]) ! k') \<le> c ((ps @ [p]) ! j))"
        using k(1) by (intro exI [of _ k]) (simp add: nth_append)
      then show ?thesis unfolding step old Let_def by simp
    qed
  qed
qed

lemma route_minutes_legs:
  "xs \<noteq> [] \<Longrightarrow>
   route_minutes previous xs acc =
     (acc + (case previous of None \<Rightarrow> 0
             | Some a \<Rightarrow> snd (travel_minutes_between a (location (hd xs))))
          + consecutive_legs xs,
      Some (location (last xs)))"
proof (induction xs arbitrary: previous acc)
  case Nil
  then show ?case by simp
next
  case (Cons x xs)
  show ?case
  proof (cases xs)
    case Nil
    then show ?thesis by (cases previous) simp_all
  next
    case (Cons y ys)
    with Cons.IH [of "Some (location x)"] show ?thesis
      by (cases previous) simp_all
  qed
qed

lemma permutation_cost_total_travel_minutes:
  "order \<noteq> [] \<Longrightarrow> permutation_cost s e order = total_travel_minutes s e order"
  by (cases e) (simp_all add: permutation_cost_def total_travel_minutes_def route_minutes_legs)

lemma itertools_permutations_nonempty:
  "p \<in> set (itertools_permutations xs) \<Longrightarrow> xs \<noteq> [] \<Longrightarrow> p \<noteq> []"
  using itertools_permutations_mset [of p xs] by auto

lemma enumerate_best_order_search:
  assumes ne: "suggestions \<noteq> []" and lim: "int (length suggestions) \<le> permutation_limit"
  shows "\<exists>k < length (itertools_permutations suggestions).
           enumerate_best_order suggestions start_anchor end_anchor permutation_limit
             = Inr (itertools_permutations suggestions ! k,
                    total_travel_minutes start_anchor end_anchor (itertools_permutations suggestions ! k),
                    fact (length suggestions)) \<and>
           (\<forall>j<k. total_travel_minutes start_anchor end_anchor (itertools_permutations suggestions ! k)
                    < total_travel_minutes start_anchor end_anchor (itertools_permutations suggestions ! j)) \<and>
           (\<forall>j<length (itertools_permutations suggestions).
               total_travel_minutes start_anchor end_anchor (itertools_permutations suggestions ! k)
                 \<le> total_travel_minutes start_anchor end_anchor (itertools_permutations suggestions ! j))"
proof -
  let ?ps = "itertools_permutations suggestions"
  let ?c = "permutation_cost start_anchor end_anchor"
  let ?t = "total_travel_minutes start_anchor end_anchor"
  define r where "r = foldl (best_step start_anchor end_anchor) (None, None, 0) ?ps"
  have len: "length ?ps = fact (length suggestions)" by (rule length_itertools_permutations)
  then have psne: "?ps \<noteq> []" by (metis fact_nonzero list.size(3))
  from foldl_best_step [of start_anchor end_anchor ?ps] psne
  obtain k where k: "k < length ?ps" and r: "r = (Some (?ps ! k), Some (?c (?ps ! k)), length ?ps)"
    and first: "\<forall>j<k. ?c (?ps ! k) < ?c (?ps ! j)"
    and least: "\<forall>j<length ?ps. ?c (?ps ! k) \<le> ?c (?ps ! j)"
    by (cases r) (auto simp: Let_def r_def)
  have ct: "\<And>j. j < length ?ps \<Longrightarrow> ?c (?ps ! j) = ?t (?ps ! j)"
    using itertools_permutations_nonempty [OF _ ne] permutation_cost_total_travel_minutes
    by (metis nth_mem)
  have run: "enumerate_best_order suggestions start_anchor end_anchor permutation_limit
               = Inr (?ps ! k, ?t (?ps ! k), fact (length suggestions))"
    using ne lim r len ct [OF k] by (simp add: enumerate_best_order_def r_def [symmetric])
  have "\<forall>j<k. ?t (?ps ! k) < ?t (?ps ! j)" using first ct k by auto
  moreover have "\<forall>j<length ?ps. ?t (?ps ! k) \<le> ?t (?ps ! j)" using least ct k by auto
  ultimately show ?thesis using run k by blast
qed



text \<open>
  Claim C8. For a configured limit that is not negative, \<^verbatim>\<open>enumerate_best_order\<close> raises
  exactly when the number of candidates exceeds \<open>permutation_limit\<close>, and what it raises is
  the \<^verbatim>\<open>ValueError\<close>; on the empty list it returns the empty ordering, cost 0 and 0
  permutations; for \<open>1 \<le> n \<le> permutation_limit\<close> it returns a result.
\<close>

theorem enumerate_best_order_raises_iff:
  assumes "0 \<le> permutation_limit"
  shows "(isl (enumerate_best_order suggestions start_anchor end_anchor permutation_limit)
            \<longleftrightarrow> int (length suggestions) > permutation_limit) \<and>
         (int (length suggestions) > permutation_limit \<longrightarrow>
            enumerate_best_order suggestions start_anchor end_anchor permutation_limit
              = Inl ValueError) \<and>
         enumerate_best_order [] start_anchor end_anchor permutation_limit = Inr ([], 0, 0) \<and>
         (1 \<le> length suggestions \<and> int (length suggestions) \<le> permutation_limit \<longrightarrow>
            (\<exists>r. enumerate_best_order suggestions start_anchor end_anchor permutation_limit = Inr r))"
proof -
  have empty: "enumerate_best_order [] start_anchor end_anchor permutation_limit = Inr ([], 0, 0)"
    by (simp add: enumerate_best_order_def)
  have over: "int (length suggestions) > permutation_limit \<Longrightarrow>
      enumerate_best_order suggestions start_anchor end_anchor permutation_limit = Inl ValueError"
    using assms by (auto simp: enumerate_best_order_def Let_def)
  have within: "\<exists>r. enumerate_best_order suggestions start_anchor end_anchor permutation_limit = Inr r"
    if "int (length suggestions) \<le> permutation_limit"
  proof (cases "suggestions = []")
    case True
    with empty show ?thesis by simp
  next
    case False
    from enumerate_best_order_search [OF False that, of start_anchor end_anchor]
    show ?thesis by blast
  qed
  have "isl (enumerate_best_order suggestions start_anchor end_anchor permutation_limit)
          \<longleftrightarrow> int (length suggestions) > permutation_limit"
  proof
    assume "isl (enumerate_best_order suggestions start_anchor end_anchor permutation_limit)"
    with within show "int (length suggestions) > permutation_limit"
      by (cases "int (length suggestions) \<le> permutation_limit") auto
  next
    assume "int (length suggestions) > permutation_limit"
    from over [OF this]
    show "isl (enumerate_best_order suggestions start_anchor end_anchor permutation_limit)"
      by simp
  qed
  with empty over within show ?thesis by simp
qed

theorem enumerate_best_order_raises_iff_witness:
  "(0::int) \<le> 1 \<and>
   (isl (enumerate_best_order [origin_stop, east_stop] (Some (0, 0)) (Some (0, 0)) 1)
      \<longleftrightarrow> int (length [origin_stop, east_stop]) > 1) \<and>
   enumerate_best_order [origin_stop, east_stop] (Some (0, 0)) (Some (0, 0)) 1 = Inl ValueError \<and>
   enumerate_best_order [] (Some (0, 0)) (Some (0, 0)) 1 = Inr ([], 0, 0) \<and>
   (\<exists>r. enumerate_best_order [origin_stop] (Some (0, 0)) (Some (0, 0)) 1 = Inr r)"
  using enumerate_best_order_raises_iff [of 1 "[origin_stop, east_stop]" "Some (0, 0)" "Some (0, 0)"]
    enumerate_best_order_raises_iff [of 1 "[origin_stop]" "Some (0, 0)" "Some (0, 0)"]
  by simp

subsection \<open>Knapsack selector\<close>

lemma dp_item_partial:
  assumes len: "length dp = m" and lo: "w_i \<le> k" and hi: "k \<le> m"
  shows "foldl (dp_step fadd w_i v_i) (dp, replicate m False) (rev [k..<m]) =
           (map (\<lambda>w. if k \<le> w \<and> fadd (dp ! (w - w_i)) v_i > dp ! w then fadd (dp ! (w - w_i)) v_i else dp ! w)
              [0..<m],
            map (\<lambda>w. k \<le> w \<and> fadd (dp ! (w - w_i)) v_i > dp ! w) [0..<m])"
  using hi lo
proof (induction k rule: inc_induct)
  case base
  show ?case using len by (auto simp: list_eq_iff_nth_eq)
next
  case (step n)
  let ?C = "\<lambda>w. fadd (dp ! (w - w_i)) v_i > dp ! w"
  let ?N = "\<lambda>w. fadd (dp ! (w - w_i)) v_i"
  let ?dp = "\<lambda>k. map (\<lambda>w. if k \<le> w \<and> ?C w then ?N w else dp ! w) [0..<m]"
  let ?row = "\<lambda>k. map (\<lambda>w. k \<le> w \<and> ?C w) [0..<m]"
  from step.prems have "w_i \<le> Suc n" by simp
  from step.IH [OF this]
  have IH: "foldl (dp_step fadd w_i v_i) (dp, replicate m False) (rev [Suc n..<m])
              = (?dp (Suc n), ?row (Suc n))" .
  from step.hyps have upt: "[n..<m] = n # [Suc n..<m]" by (simp add: upt_conv_Cons)
  have "\<not> Suc n \<le> n - w_i" by arith
  then have a: "?dp (Suc n) ! (n - w_i) = dp ! (n - w_i)" "?dp (Suc n) ! n = dp ! n"
    using step.hyps by simp_all
  have "dp_step fadd w_i v_i (?dp (Suc n), ?row (Suc n)) n = (?dp n, ?row n)"
  proof (cases "?C n")
    case True
    then have "dp_step fadd w_i v_i (?dp (Suc n), ?row (Suc n)) n
                 = ((?dp (Suc n))[n := ?N n], (?row (Suc n))[n := True])"
      unfolding dp_step_def Let_def fst_conv snd_conv a by simp
    moreover have "(?dp (Suc n))[n := ?N n] = ?dp n"
      using True step.hyps
      by (auto simp: list_eq_iff_nth_eq nth_list_update)
    moreover have "(?row (Suc n))[n := True] = ?row n"
      using True step.hyps
      by (auto simp: list_eq_iff_nth_eq nth_list_update)
    ultimately show ?thesis by (simp only:)
  next
    case False
    then have e1: "dp_step fadd w_i v_i (?dp (Suc n), ?row (Suc n)) n = (?dp (Suc n), ?row (Suc n))"
      unfolding dp_step_def Let_def fst_conv snd_conv a by simp
    have e2: "?dp (Suc n) = ?dp n"
      using False step.hyps
      by (auto simp: list_eq_iff_nth_eq Suc_le_eq le_less)
    have e3: "?row (Suc n) = ?row n"
      using False step.hyps
      by (auto simp: list_eq_iff_nth_eq Suc_le_eq le_less)
    from e1 show ?thesis unfolding e2 e3 .
  qed
  with IH show ?case by (simp only: upt rev.simps foldl_append foldl.simps)
qed

lemma dp_item_untouched:
  assumes "length dp = m" "\<not> w_i \<le> m"
  shows "(dp, replicate m False) =
           (map (\<lambda>w. if w_i \<le> w \<and> fadd (dp ! (w - w_i)) v_i > dp ! w then fadd (dp ! (w - w_i)) v_i else dp ! w)
              [0..<m],
            map (\<lambda>w. w_i \<le> w \<and> fadd (dp ! (w - w_i)) v_i > dp ! w) [0..<m])"
  using assms by (auto simp: list_eq_iff_nth_eq)

lemma dp_item_spec:
  assumes len: "length dp = W + 1"
  shows "dp_item fadd W w_i v_i dp =
           (map (\<lambda>w. if w_i \<le> w \<and> fadd (dp ! (w - w_i)) v_i > dp ! w then fadd (dp ! (w - w_i)) v_i else dp ! w)
              [0..<W + 1],
            map (\<lambda>w. w_i \<le> w \<and> fadd (dp ! (w - w_i)) v_i > dp ! w) [0..<W + 1])"
proof (cases "w_i \<le> W + 1")
  case True
  from dp_item_partial [OF len order_refl True, where v_i = v_i and fadd = fadd] show ?thesis
    unfolding dp_item_def .
next
  case False
  then have "[w_i..<W + 1] = []" by simp
  then have "dp_item fadd W w_i v_i dp = (dp, replicate (W + 1) False)"
    unfolding dp_item_def by (simp only: rev.simps foldl.simps)
  with dp_item_untouched [OF len False, where v_i = v_i and fadd = fadd] show ?thesis by (simp only:)
qed


lemma dp_table_append:
  "dp_table fadd W (xs @ ys) dp =
     (fst (dp_table fadd W ys (fst (dp_table fadd W xs dp))),
      snd (dp_table fadd W xs dp) @ snd (dp_table fadd W ys (fst (dp_table fadd W xs dp))))"
  by (induction xs arbitrary: dp) (simp_all add: Let_def)

lemma length_dp_table: "length (snd (dp_table fadd W xs dp)) = length xs"
  by (induction xs arbitrary: dp) (simp_all add: Let_def)

lemma vec_nth: "w \<le> W \<Longrightarrow> map f [0..<W + 1] ! w = f w"
  by (simp del: upt_Suc add: less_Suc_eq_le)

lemma vec_zero: "replicate (W + 1) (0::real) = map (\<lambda>w. 0) [0..<W + 1]"
  by (simp only: map_replicate_const length_upt diff_zero)

lemma dp_table_best:
  "fst (dp_table fadd W (weights_values wt items) (replicate (W + 1) 0)) =
     map (knapsack_best fadd wt (rev items)) [0..<W + 1]"
proof (induction items rule: rev_induct)
  case Nil
  have "knapsack_best fadd wt (rev []) = (\<lambda>w. 0)" by (rule ext) simp
  then show ?case by (simp only: weights_values_def list.map dp_table.simps fst_conv vec_zero)
next
  case (snoc s its)
  let ?dp = "map (knapsack_best fadd wt (rev its)) [0..<W + 1]"
  have len: "length ?dp = W + 1" by simp
  have "fst (dp_table fadd W (weights_values wt (its @ [s])) (replicate (W + 1) 0))
          = fst (dp_item fadd W (wt s) (score s) ?dp)"
    using snoc by (simp add: weights_values_def dp_table_append Let_def del: upt_Suc replicate_Suc)
  also have "\<dots> = map (\<lambda>w. if wt s \<le> w \<and> fadd (?dp ! (w - wt s)) (score s) > ?dp ! w
                           then fadd (?dp ! (w - wt s)) (score s) else ?dp ! w) [0..<W + 1]"
    by (simp only: dp_item_spec [OF len] fst_conv)
  also have "\<dots> = map (knapsack_best fadd wt (rev (its @ [s]))) [0..<W + 1]"
  proof (rule map_cong [OF refl])
    fix w assume "w \<in> set [0..<W + 1]"
    then have w: "w \<le> W" "w - wt s \<le> W" by auto
    show "(if wt s \<le> w \<and> fadd (?dp ! (w - wt s)) (score s) > ?dp ! w
           then fadd (?dp ! (w - wt s)) (score s) else ?dp ! w) = knapsack_best fadd wt (rev (its @ [s])) w"
      unfolding vec_nth [OF w(1)] vec_nth [OF w(2)] by simp
  qed
  finally show ?case .
qed

lemma dp_table_rows_snoc:
  "snd (dp_table fadd W (weights_values wt (its @ [s])) (replicate (W + 1) 0)) =
     snd (dp_table fadd W (weights_values wt its) (replicate (W + 1) 0)) @
     [map (knapsack_take fadd wt (rev its) s) [0..<W + 1]]"
proof -
  let ?dp = "map (knapsack_best fadd wt (rev its)) [0..<W + 1]"
  have len: "length ?dp = W + 1" by simp
  have rows: "snd (dp_item fadd W (wt s) (score s) ?dp) = map (knapsack_take fadd wt (rev its) s) [0..<W + 1]"
    unfolding dp_item_spec [OF len] snd_conv
  proof (rule map_cong [OF refl])
    fix w assume "w \<in> set [0..<W + 1]"
    then have w: "w \<le> W" "w - wt s \<le> W" by auto
    show "(wt s \<le> w \<and> fadd (?dp ! (w - wt s)) (score s) > ?dp ! w) = knapsack_take fadd wt (rev its) s w"
      unfolding vec_nth [OF w(1)] vec_nth [OF w(2)] by (simp add: knapsack_take_def)
  qed
  have wv: "weights_values wt (its @ [s]) = weights_values wt its @ [(wt s, score s)]"
    by (simp add: weights_values_def)
  show ?thesis
    unfolding wv dp_table_append dp_table.simps Let_def fst_conv snd_conv dp_table_best rows ..
qed

lemma backtrack_solution:
  "w \<le> W \<Longrightarrow>
   backtrack (rev (zip items (zip (map wt items)
                (snd (dp_table fadd W (weights_values wt items) (replicate (W + 1) 0)))))) w
     = knapsack_solution fadd wt (rev items) w"
proof (induction items arbitrary: w rule: rev_induct)
  case Nil
  show ?case by (simp add: weights_values_def)
next
  case (snoc s its)
  let ?rows = "snd (dp_table fadd W (weights_values wt its) (replicate (W + 1) 0))"
  let ?row = "map (knapsack_take fadd wt (rev its) s) [0..<W + 1]"
  have l: "length ?rows = length its" by (simp add: length_dp_table weights_values_def)
  have z: "zip (its @ [s]) (zip (map wt (its @ [s])) (?rows @ [?row]))
             = zip its (zip (map wt its) ?rows) @ [(s, wt s, ?row)]"
    using l by simp
  have r: "?row ! w = knapsack_take fadd wt (rev its) s w"
    using snoc.prems by (rule vec_nth)
  have w': "w - wt s \<le> W" using snoc.prems by simp
  show ?case
    unfolding dp_table_rows_snoc z rev_append rev.simps append.simps backtrack.simps r
    using snoc.IH [OF snoc.prems] snoc.IH [OF w']
    by simp
qed

lemma knapsack_solution_weight: "sum_list (map wt (knapsack_solution fadd wt l w)) \<le> w"
proof (induction l arbitrary: w)
  case Nil
  show ?case by simp
next
  case (Cons s rest)
  show ?case
  proof (cases "knapsack_take fadd wt rest s w")
    case True
    then have "wt s \<le> w" by (simp add: knapsack_take_def)
    with Cons.IH [of "w - wt s"] True show ?thesis by simp
  next
    case False
    with Cons.IH [of w] show ?thesis by simp
  qed
qed

lemma running_total_snoc:
  "running_total fadd (xs @ [s]) = fadd (running_total fadd xs) (score s)"
  by (simp add: running_total_def)

lemma knapsack_solution_value:
  "running_total fadd (rev (knapsack_solution fadd wt l w)) = knapsack_best fadd wt l w"
proof (induction l arbitrary: w)
  case Nil
  show ?case by (simp add: running_total_def)
next
  case (Cons s rest)
  then show ?case by (simp add: knapsack_take_def running_total_snoc)
qed

lemma knapsack_solution_subseq: "knapsack_solution fadd wt l w \<in> set (subseqs l)"
  by (induction l arbitrary: w) (simp_all add: Let_def)

lemma knapsack_best_upper:
  assumes mono: "\<forall>x y v. x \<le> y \<longrightarrow> fadd x v \<le> fadd y v"
  shows "sel \<in> set (subseqs l) \<Longrightarrow> sum_list (map wt sel) \<le> w \<Longrightarrow>
           running_total fadd (rev sel) \<le> knapsack_best fadd wt l w"
proof (induction l arbitrary: sel w)
  case Nil
  then show ?case by (simp add: running_total_def)
next
  case (Cons s rest)
  from Cons.prems(1) consider sel' where "sel = s # sel'" "sel' \<in> set (subseqs rest)"
    | "sel \<in> set (subseqs rest)"
    by (auto simp: Let_def)
  then show ?case
  proof cases
    case 1
    with Cons.prems(2) have ws: "wt s \<le> w" and le: "sum_list (map wt sel') \<le> w - wt s"
      by simp_all
    from Cons.IH [OF 1(2) le] mono
    have "fadd (running_total fadd (rev sel')) (score s)
            \<le> fadd (knapsack_best fadd wt rest (w - wt s)) (score s)"
      by blast
    also have "\<dots> \<le> knapsack_best fadd wt (s # rest) w" using ws by simp
    finally show ?thesis by (simp add: 1(1) running_total_snoc)
  next
    case 2
    from Cons.IH [OF 2 Cons.prems(2)]
    have "running_total fadd (rev sel) \<le> knapsack_best fadd wt rest w" .
    also have "\<dots> \<le> knapsack_best fadd wt (s # rest) w" by simp
    finally show ?thesis .
  qed
qed

lemma subseqs_append:
  "ys \<in> set (subseqs as) \<Longrightarrow> zs \<in> set (subseqs bs) \<Longrightarrow> ys @ zs \<in> set (subseqs (as @ bs))"
  by (induction as arbitrary: ys) (auto simp: Let_def)

lemma subseqs_rev: "sel \<in> set (subseqs l) \<Longrightarrow> rev sel \<in> set (subseqs (rev l))"
proof (induction l arbitrary: sel)
  case Nil
  then show ?case by simp
next
  case (Cons x xs)
  from Cons.prems consider sel' where "sel = x # sel'" "sel' \<in> set (subseqs xs)"
    | "sel \<in> set (subseqs xs)"
    by (auto simp: Let_def)
  then show ?case
  proof cases
    case 1
    from subseqs_append [OF Cons.IH [OF 1(2)], of "[x]" "[x]"] show ?thesis
      by (simp add: 1(1))
  next
    case 2
    from subseqs_append [OF Cons.IH [OF 2], of "[]" "[x]"] show ?thesis by simp
  qed
qed

lemma subseqs_mset: "sel \<in> set (subseqs l) \<Longrightarrow> mset sel \<subseteq># mset l"
proof (induction l arbitrary: sel)
  case Nil
  then show ?case by simp
next
  case (Cons x xs)
  from Cons.prems consider sel' where "sel = x # sel'" "sel' \<in> set (subseqs xs)"
    | "sel \<in> set (subseqs xs)"
    by (auto simp: Let_def)
  then show ?case
  proof cases
    case 1
    with Cons.IH [OF 1(2)] show ?thesis by simp
  next
    case 2
    from Cons.IH [OF 2] have "mset sel \<subseteq># mset xs" .
    also have "mset xs \<subseteq># mset (x # xs)" by simp
    finally show ?thesis .
  qed
qed

lemma subseteq_add_mset_notin: "a \<notin># M \<Longrightarrow> M \<subseteq># add_mset a N \<Longrightarrow> M \<subseteq># N"
proof (rule mset_subset_eqI)
  fix b assume a: "a \<notin># M" and sub: "M \<subseteq># add_mset a N"
  show "count M b \<le> count N b"
  proof (cases "b = a")
    case True
    with a show ?thesis by (simp add: not_in_iff)
  next
    case False
    with mset_subset_eq_count [OF sub, of b] show ?thesis by simp
  qed
qed

lemma mset_subseqs: "M \<subseteq># mset l \<Longrightarrow> \<exists>sel\<in>set (subseqs l). mset sel = M"
proof (induction l arbitrary: M)
  case Nil
  then show ?case by simp
next
  case (Cons x xs)
  show ?case
  proof (cases "x \<in># M")
    case True
    then obtain M' where M: "M = add_mset x M'" by (meson mset_add)
    with Cons.prems have "M' \<subseteq># mset xs" by simp
    from Cons.IH [OF this] obtain sel where "sel \<in> set (subseqs xs)" "mset sel = M'" by blast
    then have "x # sel \<in> set (subseqs (x # xs))" "mset (x # sel) = M"
      by (simp_all add: M Let_def)
    then show ?thesis by blast
  next
    case False
    with Cons.prems have "M \<subseteq># mset xs" by (simp add: subseteq_add_mset_notin)
    from Cons.IH [OF this] obtain sel where "sel \<in> set (subseqs xs)" "mset sel = M" by blast
    then have "sel \<in> set (subseqs (x # xs))" by (simp add: Let_def)
    with \<open>mset sel = M\<close> show ?thesis by blast
  qed
qed

lemma running_total_exact: "running_total (+) sel = sum_list (map score sel)"
proof -
  have "foldl (\<lambda>total s. total + score s) a sel = a + sum_list (map score sel)" for a
    by (induction sel arbitrary: a) simp_all
  from this [of 0] show ?thesis by (simp add: running_total_def)
qed

lemma sum_list_map_mset: "sum_list (map f xs) = sum_mset (image_mset f (mset xs))"
  by (induction xs) simp_all

lemma zip_weights_values:
  "zip (map wt items) (map score items) = weights_values wt items"
  by (induction items) (simp_all add: weights_values_def)

lemma greedy_select_candidates_solution:
  assumes "tolerance < capacity" "resolution_minutes \<noteq> 0"
  shows "greedy_select_candidates fadd fdiv suggestions gaps max_distance (Some capacity) tolerance
           resolution_minutes =
         Inr (sort_key (\<lambda>s. - score s)
                (knapsack_solution fadd (item_weight fdiv resolution_minutes) (rev suggestions)
                   (nat (max 0 (py_round (fdiv capacity resolution_minutes))))))"
  unfolding greedy_select_candidates_def Let_def option.case zip_weights_values
    backtrack_solution [OF order_refl]
  using assms by simp

lemma item_weight_discretized:
  "min_duration s = duration s \<Longrightarrow>
     int (item_weight fdiv resolution_minutes s) = discretized_weight fdiv resolution_minutes s"
  by (simp add: item_weight_def discretized_weight_def)

lemma sum_list_int: "int (sum_list (map f xs)) = sum_list (map (\<lambda>x. int (f x)) xs)"
  by (induction xs) simp_all

lemma sum_list_weights:
  "\<forall>s\<in>set xs. min_duration s = duration s \<Longrightarrow>
     sum_list (map (discretized_weight fdiv r) xs) = int (sum_list (map (item_weight fdiv r) xs))"
  by (induction xs) (simp_all add: item_weight_discretized)

lemma sum_list_map_mset_cong:
  fixes f :: "'a \<Rightarrow> 'b::comm_monoid_add"
  shows "mset xs = mset ys \<Longrightarrow> sum_list (map f xs) = sum_list (map f ys)"
  by (simp only: sum_list_map_mset)

lemma snack_nap_lecture_select:
  "greedy_select_candidates double_add double_div [snack, nap, lecture] [] 3 (Some 2)
     (1 / 1000000) 1 = Inr [nap, snack]"
  by (simp add: greedy_select_candidates_def item_weight_def double_div_def double_add_def
      round_to_double_1 round_to_double_2 py_round_int_numeral py_round_1
      round_to_double_tenth round_to_double_fifth round_to_double_three_tenths
      round_to_double_tenth_plus_fifth
      snack_def nap_def lecture_def dp_item_def dp_step_def Let_def upt_rec [of _ "numeral _"]
      numeral_2_eq_2)

text \<open>
  Claim C3, as stated. On the candidates with scores 0.1, 0.2 and 0.30000000000000004,
  durations 1, 1 and 2, and a capacity of 2 minutes, the rounded sum of the first two scores
  equals the third score, so the selector keeps the first two. The third candidate alone is
  within the weight bound and its score is strictly greater than the total score of the two
  that are returned.
\<close>

theorem rounded_total_not_maximal:
  "greedy_select_candidates double_add double_div [snack, nap, lecture] [] 3 (Some 2)
     (1 / 1000000) 1 = Inr [nap, snack] \<and>
   mset [lecture] \<subseteq># mset [snack, nap, lecture] \<and>
   sum_list (map (discretized_weight double_div 1) [lecture]) \<le> py_round (double_div 2 1) \<and>
   sum_list (map score [nap, snack]) < sum_list (map score [lecture])"
proof -
  have "sum_list (map (discretized_weight double_div 1) [lecture]) \<le> py_round (double_div 2 1)"
    by (simp add: discretized_weight_def double_div_def round_to_double_2 py_round_int_numeral
        lecture_def)
  moreover have "sum_list (map score [nap, snack]) < sum_list (map score [lecture])"
    by (simp add: nap_def snack_def lecture_def)
  ultimately show ?thesis using snack_nap_lecture_select by simp
qed

text \<open>
  Claim C3, amended. The float operations are any addition that is monotone in the
  accumulated total and any division that keeps the sign, as the operations on doubles are.
  For a tolerance that is not negative, a positive resolution and suggestions as their
  constructor builds them (\<open>min_duration = duration\<close>): with a capacity of at most the
  tolerance the selector returns the empty list; otherwise it returns, sorted by descending
  score, a selection of candidates whose total discretized weight is at most the rounded
  capacity and whose total score, accumulated in the order of the candidates with the
  program's addition, is maximal among the selections within that weight. When the
  addition is exact, the total score is maximal among all sub-multisets of the candidates
  within that weight.
\<close>

theorem greedy_select_candidates_optimal:
  assumes add: "\<forall>x y v. x \<le> y \<longrightarrow> fadd x v \<le> fadd y v"
    and div: "\<forall>x y. 0 \<le> x \<and> 0 < y \<longrightarrow> 0 \<le> fdiv x y"
    and tol: "0 \<le> tolerance" and res: "0 < resolution_minutes"
    and built: "\<forall>s\<in>set suggestions. min_duration s = duration s"
    and cap: "capacity = (case available_minutes of Some a \<Rightarrow> a | None \<Rightarrow> total_gap_minutes gaps)"
  shows "(capacity \<le> tolerance \<longrightarrow>
            greedy_select_candidates fadd fdiv suggestions gaps max_distance available_minutes
              tolerance resolution_minutes = Inr []) \<and>
         (tolerance < capacity \<longrightarrow>
            (\<exists>chosen selection.
               greedy_select_candidates fadd fdiv suggestions gaps max_distance available_minutes
                 tolerance resolution_minutes = Inr chosen \<and>
               selection \<in> set (subseqs suggestions) \<and> mset chosen = mset selection \<and>
               sum_list (map (discretized_weight fdiv resolution_minutes) chosen)
                 \<le> py_round (fdiv capacity resolution_minutes) \<and>
               (\<forall>sub. sub \<in> set (subseqs suggestions) \<and>
                      sum_list (map (discretized_weight fdiv resolution_minutes) sub)
                        \<le> py_round (fdiv capacity resolution_minutes) \<longrightarrow>
                      running_total fadd sub \<le> running_total fadd selection) \<and>
               (fadd = (+) \<longrightarrow>
                  (\<forall>sub. mset sub \<subseteq># mset suggestions \<and>
                         sum_list (map (discretized_weight fdiv resolution_minutes) sub)
                           \<le> py_round (fdiv capacity resolution_minutes) \<longrightarrow>
                         sum_list (map score sub) \<le> sum_list (map score chosen))) \<and>
               (\<forall>i j. i < j \<and> j < length chosen \<longrightarrow> score (chosen ! j) \<le> score (chosen ! i))))"
proof (intro conjI impI)
  assume "capacity \<le> tolerance"
  then show "greedy_select_candidates fadd fdiv suggestions gaps max_distance available_minutes
              tolerance resolution_minutes = Inr []"
    by (simp add: greedy_select_candidates_def cap)
next
  assume gt: "tolerance < capacity"
  let ?wt = "item_weight fdiv resolution_minutes"
  let ?dw = "discretized_weight fdiv resolution_minutes"
  let ?r = "py_round (fdiv capacity resolution_minutes)"
  let ?W = "nat (max 0 ?r)"
  let ?sol = "knapsack_solution fadd ?wt (rev suggestions) ?W"
  let ?chosen = "sort_key (\<lambda>s. - score s) ?sol"
  let ?sel = "rev ?sol"
  have same: "greedy_select_candidates fadd fdiv suggestions gaps max_distance available_minutes
                tolerance resolution_minutes =
              greedy_select_candidates fadd fdiv suggestions gaps max_distance (Some capacity)
                tolerance resolution_minutes"
    by (simp add: greedy_select_candidates_def cap)
  from gt res have run: "greedy_select_candidates fadd fdiv suggestions gaps max_distance
      available_minutes tolerance resolution_minutes = Inr ?chosen"
    unfolding same by (intro greedy_select_candidates_solution) simp_all
  from gt tol res div have "0 \<le> fdiv capacity resolution_minutes" by simp
  then have r0: "0 \<le> ?r" by (rule py_round_nonneg)
  then have W: "int ?W = ?r" by simp
  have m: "mset ?chosen = mset ?sel" by simp
  from subseqs_rev [OF knapsack_solution_subseq [of fadd ?wt "rev suggestions" ?W]]
  have sel: "?sel \<in> set (subseqs suggestions)" by simp
  from subseqs_mset [OF sel] have sub: "mset ?chosen \<subseteq># mset suggestions" by simp
  then have built_chosen: "\<forall>s\<in>set ?chosen. min_duration s = duration s"
    using built mset_subset_eqD by fastforce
  have sumw: "sum_list (map ?wt ?chosen) = sum_list (map ?wt ?sol)"
    by (rule sum_list_map_mset_cong) simp
  have weight: "sum_list (map ?dw ?chosen) \<le> ?r"
    unfolding sum_list_weights [OF built_chosen] sumw
    using knapsack_solution_weight [of ?wt fadd "rev suggestions" ?W] W by linarith
  have best: "\<forall>sub. sub \<in> set (subseqs suggestions) \<and> sum_list (map ?dw sub) \<le> ?r \<longrightarrow>
                running_total fadd sub \<le> running_total fadd ?sel"
  proof (intro allI impI)
    fix sub
    assume a: "sub \<in> set (subseqs suggestions) \<and> sum_list (map ?dw sub) \<le> ?r"
    from a subseqs_mset [of sub suggestions] have b: "\<forall>s\<in>set sub. min_duration s = duration s"
      using built mset_subset_eqD by fastforce
    from a have "int (sum_list (map ?wt sub)) \<le> ?r"
      unfolding sum_list_weights [OF b] by simp
    with W have "sum_list (map ?wt sub) \<le> ?W" by linarith
    then have w: "sum_list (map ?wt (rev sub)) \<le> ?W" by (simp add: rev_map [symmetric])
    from a have "rev sub \<in> set (subseqs (rev suggestions))" by (simp add: subseqs_rev)
    from knapsack_best_upper [OF add this w]
    show "running_total fadd sub \<le> running_total fadd ?sel"
      by (simp add: knapsack_solution_value)
  qed
  have exact: "fadd = (+) \<longrightarrow>
      (\<forall>sub. mset sub \<subseteq># mset suggestions \<and> sum_list (map ?dw sub) \<le> ?r \<longrightarrow>
             sum_list (map score sub) \<le> sum_list (map score ?chosen))"
  proof (intro allI impI)
    fix sub
    assume e: "fadd = (+)"
      and a: "mset sub \<subseteq># mset suggestions \<and> sum_list (map ?dw sub) \<le> ?r"
    from a mset_subseqs [of "mset sub" suggestions]
    obtain sub' where s': "sub' \<in> set (subseqs suggestions)" "mset sub' = mset sub" by blast
    have "sum_list (map ?dw sub') = sum_list (map ?dw sub)"
      by (rule sum_list_map_mset_cong [OF s'(2)])
    with a s'(1) best have "running_total fadd sub' \<le> running_total fadd ?sel" by simp
    then have "sum_list (map score sub') \<le> sum_list (map score ?sel)"
      by (simp only: e running_total_exact)
    moreover have "sum_list (map score sub') = sum_list (map score sub)"
      by (rule sum_list_map_mset_cong [OF s'(2)])
    moreover have "sum_list (map score ?chosen) = sum_list (map score ?sel)"
      by (rule sum_list_map_mset_cong [OF m])
    ultimately show "sum_list (map score sub) \<le> sum_list (map score ?chosen)" by simp
  qed
  have "sorted (map (\<lambda>s. - score s) ?chosen)" by (rule sorted_sort_key)
  then have desc: "\<forall>i j. i < j \<and> j < length ?chosen \<longrightarrow> score (?chosen ! j) \<le> score (?chosen ! i)"
    by (auto simp: sorted_iff_nth_mono_less)
  from run sel m weight best exact desc
  show "\<exists>chosen selection.
               greedy_select_candidates fadd fdiv suggestions gaps max_distance available_minutes
                 tolerance resolution_minutes = Inr chosen \<and>
               selection \<in> set (subseqs suggestions) \<and> mset chosen = mset selection \<and>
               sum_list (map (discretized_weight fdiv resolution_minutes) chosen)
                 \<le> py_round (fdiv capacity resolution_minutes) \<and>
               (\<forall>sub. sub \<in> set (subseqs suggestions) \<and>
                      sum_list (map (discretized_weight fdiv resolution_minutes) sub)
                        \<le> py_round (fdiv capacity resolution_minutes) \<longrightarrow>
                      running_total fadd sub \<le> running_total fadd selection) \<and>
               (fadd = (+) \<longrightarrow>
                  (\<forall>sub. mset sub \<subseteq># mset suggestions \<and>
                         sum_list (map (discretized_weight fdiv resolution_minutes) sub)
                           \<le> py_round (fdiv capacity resolution_minutes) \<longrightarrow>
                         sum_list (map score sub) \<le> sum_list (map score chosen))) \<and>
               (\<forall>i j. i < j \<and> j < length chosen \<longrightarrow> score (chosen ! j) \<le> score (chosen ! i))"
    by (intro exI [of _ ?chosen] exI [of _ ?sel]) (simp only: simp_thms)
qed

theorem greedy_select_candidates_optimal_witness:
  "(0::real) \<le> 1 / 1000000 \<and> (0::real) < 1 \<and>
   min_duration snack = duration snack \<and> min_duration nap = duration nap \<and>
   min_duration lecture = duration lecture \<and>
   (\<exists>chosen selection.
      greedy_select_candidates double_add double_div [snack, nap, lecture] [] 3 (Some 2)
        (1 / 1000000) 1 = Inr chosen \<and>
      selection \<in> set (subseqs [snack, nap, lecture]) \<and> mset chosen = mset selection \<and>
      sum_list (map (discretized_weight double_div 1) chosen) \<le> py_round (double_div 2 1) \<and>
      (\<forall>sub. sub \<in> set (subseqs [snack, nap, lecture]) \<and>
             sum_list (map (discretized_weight double_div 1) sub) \<le> py_round (double_div 2 1) \<longrightarrow>
             running_total double_add sub \<le> running_total double_add selection) \<and>
      (double_add = (+) \<longrightarrow>
         (\<forall>sub. mset sub \<subseteq># mset [snack, nap, lecture] \<and>
                sum_list (map (discretized_weight double_div 1) sub) \<le> py_round (double_div 2 1) \<longrightarrow>
                sum_list (map score sub) \<le> sum_list (map score chosen))) \<and>
      (\<forall>i j. i < j \<and> j < length chosen \<longrightarrow> score (chosen ! j) \<le> score (chosen ! i)))"
proof -
  have a: "\<forall>x y v. x \<le> y \<longrightarrow> double_add x v \<le> double_add y v"
    by (simp add: double_add_mono)
  have d: "\<forall>x y. 0 \<le> x \<and> 0 < y \<longrightarrow> 0 \<le> double_div x y"
    by (simp add: double_div_nonneg)
  have b: "\<forall>s\<in>set [snack, nap, lecture]. min_duration s = duration s"
    by (simp add: snack_def nap_def lecture_def)
  have c: "(2::real) = (case Some 2 of Some a \<Rightarrow> a | None \<Rightarrow> total_gap_minutes [])" by simp
  have t: "(0::real) \<le> 1 / 1000000" and r: "(0::real) < 1" and g: "(1 / 1000000 :: real) < 2"
    by simp_all
  have b': "min_duration snack = duration snack" "min_duration nap = duration nap"
    "min_duration lecture = duration lecture"
    by (simp_all add: snack_def nap_def lecture_def)
  from greedy_select_candidates_optimal [OF a d t r b c, of 3] g b' show ?thesis
    by (simp only: simp_thms t r)
qed
subsection \<open>Proof rules for the placement engine and the orchestrator\<close>

text \<open>
  Invariant rules: a property kept by every step of the loop body, by leaving a gap, by
  dropping a candidate and by committing a placement holds of what the loops return.
\<close>

lemma allocate_suggestion_rule:
  assumes run: "allocate_suggestion gaps gap_labels tolerance s is_last p = (True, p')"
    and init: "P p"
    and advance: "\<And>q q'. P q \<Longrightarrow> place_step gaps gap_labels tolerance s is_last q = Advance q' \<Longrightarrow> P q'"
    and shift: "\<And>q q'. P q \<Longrightarrow> shift_to_next_gap gaps gap_labels tolerance q = (True, q') \<Longrightarrow> P q'"
  shows "\<exists>q. P q \<and> place_step gaps gap_labels tolerance s is_last q = Placed p'"
  using run init advance shift
proof (induction gaps gap_labels tolerance s is_last p rule: allocate_suggestion.induct)
  case (1 gaps gap_labels tolerance s is_last p)
  note run = "1.prems"(1) and P = "1.prems"(2) and advance = "1.prems"(3) and shift = "1.prems"(4)
  show ?case
  proof (cases "place_step gaps gap_labels tolerance s is_last p")
    case NoGap
    with run show ?thesis
      by (simp add: allocate_suggestion.simps [of gaps gap_labels tolerance s is_last p])
  next
    case (Placed q)
    with run have "q = p'"
      by (simp add: allocate_suggestion.simps [of gaps gap_labels tolerance s is_last p])
    with Placed P show ?thesis by blast
  next
    case (Advance q)
    obtain ok q' where sh: "shift_to_next_gap gaps gap_labels tolerance q = (ok, q')"
      by (cases "shift_to_next_gap gaps gap_labels tolerance q")
    with run Advance have ok: ok
      and rec: "allocate_suggestion gaps gap_labels tolerance s is_last q' = (True, p')"
      by (simp_all add: allocate_suggestion.simps [of gaps gap_labels tolerance s is_last p]
            split: if_splits)
    from advance [OF P Advance] have "P q" .
    from shift [OF this] sh ok have "P q'" by simp
    from "1.IH" [OF Advance sh [symmetric] ok rec this advance shift] show ?thesis .
  qed
qed


lemma allocate_all_rule:
  assumes run: "allocate_all gaps gap_labels tolerance order p = Some p'"
    and init: "P p"
    and advance: "\<And>s is_last q q'. s \<in> set order \<Longrightarrow> P q \<Longrightarrow>
        place_step gaps gap_labels tolerance s is_last q = Advance q' \<Longrightarrow> P q'"
    and shift: "\<And>q q'. P q \<Longrightarrow> shift_to_next_gap gaps gap_labels tolerance q = (True, q') \<Longrightarrow> P q'"
    and placed: "\<And>s is_last q q'. s \<in> set order \<Longrightarrow> P q \<Longrightarrow>
        place_step gaps gap_labels tolerance s is_last q = Placed q' \<Longrightarrow> P q'"
  shows "P p'"
  using run init advance placed
proof (induction order arbitrary: p)
  case Nil
  then show ?case by simp
next
  case (Cons s rest)
  obtain ok q where a: "allocate_suggestion gaps gap_labels tolerance s (rest = []) p = (ok, q)"
    by (cases "allocate_suggestion gaps gap_labels tolerance s (rest = []) p")
  with Cons.prems(1) have ok: ok and rec: "allocate_all gaps gap_labels tolerance rest q = Some p'"
    by (simp_all split: if_splits)
  have "\<exists>r. P r \<and> place_step gaps gap_labels tolerance s (rest = []) r = Placed q"
  proof (rule allocate_suggestion_rule [where P = P])
    show "allocate_suggestion gaps gap_labels tolerance s (rest = []) p = (True, q)"
      using a ok by simp
    show "P p" by (rule Cons.prems(2))
    show "\<And>q q'. P q \<Longrightarrow> place_step gaps gap_labels tolerance s (rest = []) q = Advance q' \<Longrightarrow> P q'"
      using Cons.prems(3) [of s] by simp
    show "\<And>q q'. P q \<Longrightarrow> shift_to_next_gap gaps gap_labels tolerance q = (True, q') \<Longrightarrow> P q'"
      by (rule shift)
  qed
  then obtain r where "P r" "place_step gaps gap_labels tolerance s (rest = []) r = Placed q"
    by blast
  with Cons.prems(4) [of s] have "P q" by simp
  show ?case
  proof (rule Cons.IH [OF rec \<open>P q\<close>])
    show "\<And>s is_last q q'. s \<in> set rest \<Longrightarrow> P q \<Longrightarrow>
        place_step gaps gap_labels tolerance s is_last q = Advance q' \<Longrightarrow> P q'"
      using Cons.prems(3) by (meson list.set_intros(2))
    show "\<And>s is_last q q'. s \<in> set rest \<Longrightarrow> P q \<Longrightarrow>
        place_step gaps gap_labels tolerance s is_last q = Placed q' \<Longrightarrow> P q'"
      using Cons.prems(4) by (meson list.set_intros(2))
  qed
qed

lemma shift_to_next_gap_leave:
  assumes "shift_to_next_gap gaps gap_labels tolerance q = (True, q')"
  shows "\<exists>gap info. current_gap gaps (gap_index q) = Some gap \<and>
           ensure_gap_exit_ok gap_labels tolerance (gap_usage q) gap
             (case current_cursor q of Some c \<Rightarrow> c | None \<Rightarrow> start_location gap)
             (current_label q) = Some info \<and>
           q' = leave_gap tolerance gap info q"
  using assms by (auto simp: shift_to_next_gap_def Let_def split: option.splits)

lemma assign_order_to_gaps_rule:
  assumes run: "assign_order_to_gaps order gaps gap_labels tolerance initial_state = Some placed"
    and ne: "order \<noteq> []"
    and init: "P (initial_placement gaps initial_state)"
    and advance: "\<And>s is_last q q'. s \<in> set order \<Longrightarrow> P q \<Longrightarrow>
        place_step gaps gap_labels tolerance s is_last q = Advance q' \<Longrightarrow> P q'"
    and placed: "\<And>s is_last q q'. s \<in> set order \<Longrightarrow> P q \<Longrightarrow>
        place_step gaps gap_labels tolerance s is_last q = Placed q' \<Longrightarrow> P q'"
    and leave: "\<And>q gap info. P q \<Longrightarrow> current_gap gaps (gap_index q) = Some gap \<Longrightarrow>
        ensure_gap_exit_ok gap_labels tolerance (gap_usage q) gap
          (case current_cursor q of Some c \<Rightarrow> c | None \<Rightarrow> start_location gap)
          (current_label q) = Some info \<Longrightarrow>
        P (leave_gap tolerance gap info q)"
  shows "\<exists>p'. P p' \<and> placed = (schedule p', state_of p', movement_logs p')"
proof -
  from run ne obtain p where all: "allocate_all gaps gap_labels tolerance order
      (initial_placement gaps initial_state) = Some p"
    by (auto simp: assign_order_to_gaps_def split: option.splits)
  have shift: "\<And>q q'. P q \<Longrightarrow> shift_to_next_gap gaps gap_labels tolerance q = (True, q') \<Longrightarrow> P q'"
    using shift_to_next_gap_leave leave by blast
  have Pp: "P p"
    by (rule allocate_all_rule [where P = P, OF all init advance shift placed])
  show ?thesis
  proof (cases "current_gap gaps (gap_index p)")
    case None
    with run ne all have "placed = (schedule p, state_of p, movement_logs p)"
      by (simp add: assign_order_to_gaps_def)
    with Pp show ?thesis by blast
  next
    case (Some gap)
    let ?cursor = "case current_cursor p of Some c \<Rightarrow> c | None \<Rightarrow> start_location gap"
    from run ne all Some obtain info where
      info: "ensure_gap_exit_ok gap_labels tolerance (gap_usage p) gap ?cursor (current_label p)
               = Some info"
      by (auto simp: assign_order_to_gaps_def Let_def split: option.splits)
    with run ne all Some
    have "placed = (schedule (leave_gap tolerance gap info p),
                    state_of (leave_gap tolerance gap info p),
                    movement_logs (leave_gap tolerance gap info p))"
      by (simp add: assign_order_to_gaps_def Let_def)
    with leave [OF Pp Some info] show ?thesis by blast
  qed
qed


lemma place_step_Advance:
  assumes "place_step gaps gap_labels tolerance s is_last q = Advance q'"
  shows "q' = q"
proof -
  from assms obtain gap where gap: "current_gap gaps (gap_index q) = Some gap"
    by (auto simp: place_step_def split: option.splits)
  let ?cursor = "case current_cursor q of Some c \<Rightarrow> c | None \<Rightarrow> start_location gap"
  obtain d t where tr: "travel_minutes_between ?cursor (location s) = (d, t)"
    by (cases "travel_minutes_between ?cursor (location s)")
  from assms gap tr show ?thesis
    by (auto simp: place_step_def Let_def split: if_splits)
qed

lemma place_step_Placed:
  assumes "place_step gaps gap_labels tolerance s is_last q = Placed q'"
  shows "\<exists>gap. current_gap gaps (gap_index q) = Some gap \<and>
          (let cursor = (case current_cursor q of Some c \<Rightarrow> c | None \<Rightarrow> start_location gap);
               used = usage_get (gap_usage q) (gap_id gap);
               remaining = gap_duration gap - used;
               t = snd (travel_minutes_between cursor (location s))
           in tolerance < remaining \<and>
              \<not> preference_blocks gaps gap_labels tolerance s is_last q gap cursor remaining \<and>
              t + duration s \<le> remaining + tolerance \<and>
              gap_usage q' = (gap_usage q)(gap_id gap \<mapsto> used + charged tolerance t + duration s) \<and>
              schedule q' = schedule q @
                [\<lparr>block_suggestion_id = suggestion_id s, block_gap_id = gap_id gap,
                  start_offset = used + charged tolerance t, block_duration = duration s,
                  block_location = location s\<rparr>] \<and>
              gap_index q' = gap_index q \<and>
              current_cursor q' = Some (location s) \<and>
              current_label q' = Some (suggestion_id s))"
proof -
  from assms obtain gap where gap: "current_gap gaps (gap_index q) = Some gap"
    by (auto simp: place_step_def split: option.splits)
  let ?cursor = "case current_cursor q of Some c \<Rightarrow> c | None \<Rightarrow> start_location gap"
  obtain d t where tr: "travel_minutes_between ?cursor (location s) = (d, t)"
    by (cases "travel_minutes_between ?cursor (location s)")
  from assms gap tr show ?thesis
    by (auto simp: place_step_def Let_def charged_def usage_get_def split: if_splits)
qed

lemma leave_gap_exit:
  assumes "ensure_gap_exit_ok gap_labels tolerance (gap_usage q) gap cursor label = Some info"
  shows "(let m = snd (travel_minutes_between cursor (end_location gap));
              used = usage_get (gap_usage q) (gap_id gap)
          in m \<le> gap_duration gap - used + tolerance \<and>
             gap_usage (leave_gap tolerance gap info q) =
               (if m > tolerance then (gap_usage q)(gap_id gap \<mapsto> used + m) else gap_usage q) \<and>
             schedule (leave_gap tolerance gap info q) = schedule q \<and>
             gap_index (leave_gap tolerance gap info q) = gap_index q + 1 \<and>
             current_cursor (leave_gap tolerance gap info q) = None)"
proof -
  obtain d m where tr: "travel_minutes_between cursor (end_location gap) = (d, m)"
    by (cases "travel_minutes_between cursor (end_location gap)")
  with assms show ?thesis
    by (auto simp: ensure_gap_exit_ok_def leave_gap_def Let_def split: if_splits)
qed

lemma greedy_select_candidates_subset:
  assumes "greedy_select_candidates fadd fdiv candidates gaps max_distance (Some capacity) tolerance
             resolution_minutes = Inr chosen"
  shows "set chosen \<subseteq> set candidates"
proof (cases "capacity \<le> tolerance")
  case True
  with assms show ?thesis by (simp add: greedy_select_candidates_def)
next
  case False
  with assms have r: "resolution_minutes \<noteq> 0"
    by (auto simp: greedy_select_candidates_def)
  from False have "tolerance < capacity" by simp
  from greedy_select_candidates_solution [OF this r, of fadd fdiv candidates gaps max_distance] assms
  have "mset chosen = mset (knapsack_solution fadd (item_weight fdiv resolution_minutes)
          (rev candidates) (nat (max 0 (py_round (fdiv capacity resolution_minutes)))))"
    by simp
  with subseqs_mset [OF knapsack_solution_subseq [of fadd "item_weight fdiv resolution_minutes"
        "rev candidates" "nat (max 0 (py_round (fdiv capacity resolution_minutes)))"]]
  have "mset chosen \<subseteq># mset candidates" by simp
  then show ?thesis by (rule set_mset_mono [of "mset chosen" "mset candidates", simplified])
qed

lemma schedule_group_invariant:
  assumes run: "schedule_group gaps gap_labels permutation_limit tolerance grp orch = Inr (ok, orch')"
    and J: "J orch" and sub: "set grp \<subseteq> S"
    and drop: "\<And>c oc. J oc \<Longrightarrow> J (drop_candidate c oc)"
    and commit: "\<And>w oc start_loc found placed.
        J oc \<Longrightarrow> w \<noteq> [] \<Longrightarrow> set w \<subseteq> S \<Longrightarrow> int (length w) \<le> permutation_limit \<Longrightarrow>
        starting_location_for_state gaps (state oc) = Some start_loc \<Longrightarrow>
        enumerate_best_order w (Some start_loc)
          (if gaps = [] then None else Some (end_location (last gaps))) permutation_limit = Inr found \<Longrightarrow>
        assign_order_to_gaps (fst found) gaps gap_labels tolerance (state oc) = Some placed \<Longrightarrow>
        J (commit (fst found) (fst (snd found)) (snd (snd found))
             (fst placed) (fst (snd placed)) (snd (snd placed)) oc)"
  shows "J orch'"
proof (rule schedule_group_rule [OF run,
      where P = "\<lambda>w oc. set w \<subseteq> S \<and> J oc" and Q = "\<lambda>ok oc. J oc"])
  show "set (sort_key (\<lambda>s. - score s) (filter (\<lambda>s. s \<in> set (remaining orch)) grp)) \<subseteq> S \<and> J orch"
    using J sub by auto
next
  fix w :: "Suggestion list" and oc :: Orch
  assume "set w \<subseteq> S \<and> J oc" "w \<noteq> []"
  then show "set (butlast w) \<subseteq> S \<and> J (drop_candidate (last w) oc)"
    using drop by (meson in_set_butlastD subset_iff)
next
  fix w :: "Suggestion list" and oc :: Orch and start_loc found placed
  assume "set w \<subseteq> S \<and> J oc" "w \<noteq> []" "int (length w) \<le> permutation_limit"
    "starting_location_for_state gaps (state oc) = Some start_loc"
    "enumerate_best_order w (Some start_loc)
       (if gaps = [] then None else Some (end_location (last gaps))) permutation_limit = Inr found"
    "assign_order_to_gaps (fst found) gaps gap_labels tolerance (state oc) = Some placed"
  then show "J (commit (fst found) (fst (snd found)) (snd (snd found))
             (fst placed) (fst (snd placed)) (snd (snd placed)) oc)"
    using commit by blast
next
  fix w :: "Suggestion list" and oc :: Orch
  assume "set w \<subseteq> S \<and> J oc"
  then show "J oc" by simp
qed

lemma optional_step_invariant:
  assumes run: "optional_step gaps gap_labels max_distance permutation_limit tolerance
                  resolution_minutes optional orch = Inr (cont, orch')"
    and J: "J orch" and sub: "set optional \<subseteq> S"
    and drop: "\<And>c oc. J oc \<Longrightarrow> J (drop_candidate c oc)"
    and commit: "\<And>w oc start_loc found placed.
        J oc \<Longrightarrow> w \<noteq> [] \<Longrightarrow> set w \<subseteq> S \<Longrightarrow> int (length w) \<le> permutation_limit \<Longrightarrow>
        starting_location_for_state gaps (state oc) = Some start_loc \<Longrightarrow>
        enumerate_best_order w (Some start_loc)
          (if gaps = [] then None else Some (end_location (last gaps))) permutation_limit = Inr found \<Longrightarrow>
        assign_order_to_gaps (fst found) gaps gap_labels tolerance (state oc) = Some placed \<Longrightarrow>
        J (commit (fst found) (fst (snd found)) (snd (snd found))
             (fst placed) (fst (snd placed)) (snd (snd placed)) oc)"
  shows "J orch'"
proof (cases "\<exists>chosen. greedy_select_candidates double_add double_div (filter (\<lambda>s. s \<in> set (remaining orch)) optional)
           gaps max_distance (Some (remaining_capacity gaps (state orch) tolerance)) tolerance
           resolution_minutes = Inr chosen \<and> chosen \<noteq> [] \<and> remaining orch \<noteq> [] \<and>
           \<not> remaining_capacity gaps (state orch) tolerance \<le> tolerance \<and>
           filter (\<lambda>s. s \<in> set (remaining orch)) optional \<noteq> []")
  case False
  with run have "orch' = orch"
    by (auto simp: optional_step_def Let_def split: if_splits sum.splits)
  with J show ?thesis by simp
next
  case True
  then obtain chosen where
    ch: "greedy_select_candidates double_add double_div (filter (\<lambda>s. s \<in> set (remaining orch)) optional)
           gaps max_distance (Some (remaining_capacity gaps (state orch) tolerance)) tolerance
           resolution_minutes = Inr chosen"
    and ne: "chosen \<noteq> []" "remaining orch \<noteq> []"
      "\<not> remaining_capacity gaps (state orch) tolerance \<le> tolerance"
      "filter (\<lambda>s. s \<in> set (remaining orch)) optional \<noteq> []"
    by blast
  from greedy_select_candidates_subset [OF ch] sub have chS: "set chosen \<subseteq> S" by auto
  let ?sel = "sort_key (\<lambda>s. - score s) chosen"
  let ?loc = "filter (\<lambda>s. has_preference s \<and> s \<in> set (remaining orch)) ?sel"
  let ?first = "if ?loc \<noteq> [] then schedule_group gaps gap_labels permutation_limit tolerance ?loc orch
                else Inr (False, orch)"
  from run ch ne obtain r1 where r1: "?first = Inr r1"
    by (auto simp: optional_step_def Let_def split: if_splits sum.splits)
  obtain ok1 o1 where r1': "r1 = (ok1, o1)" by (cases r1)
  have locS: "set ?loc \<subseteq> S" using chS by auto
  have J1: "J o1"
  proof (cases "?loc \<noteq> []")
    case True
    with r1 r1' have "schedule_group gaps gap_labels permutation_limit tolerance ?loc orch = Inr (ok1, o1)"
      by simp
    then show ?thesis
      apply (rule schedule_group_invariant [where J = J and S = S, OF _ J locS])
       apply (erule drop)
      apply (erule commit; assumption)
      done
  next
    case False
    with r1 r1' J show ?thesis by simp
  qed
  show ?thesis
  proof (cases ok1)
    case True
    with run ch ne r1 r1' have "orch' = o1"
      by (auto simp: optional_step_def Let_def split: if_splits sum.splits)
    with J1 show ?thesis by simp
  next
    case False
    let ?flex = "filter (\<lambda>s. \<not> has_preference s \<and> s \<in> set (remaining o1)) ?sel"
    have flexS: "set ?flex \<subseteq> S" using chS by auto
    show ?thesis
    proof (cases "?flex = []")
      case True
      with run ch ne r1 r1' False have "orch' = o1"
        by (auto simp: optional_step_def Let_def split: if_splits sum.splits)
      with J1 show ?thesis by simp
    next
      case nonempty: False
      with run ch ne r1 r1' False
      have "schedule_group gaps gap_labels permutation_limit tolerance ?flex o1 = Inr (cont, orch')"
        by (auto simp: optional_step_def Let_def split: if_splits sum.splits)
      then show ?thesis
        apply (rule schedule_group_invariant [where J = J and S = S, OF _ J1 flexS])
         apply (erule drop)
        apply (erule commit; assumption)
        done
    qed
  qed
qed

lemma optional_loop_invariant:
  assumes run: "optional_loop gaps gap_labels max_distance permutation_limit tolerance
                  resolution_minutes optional orch = Inr orch'"
    and J: "J orch" and sub: "set optional \<subseteq> S"
    and drop: "\<And>c oc. J oc \<Longrightarrow> J (drop_candidate c oc)"
    and commit: "\<And>w oc start_loc found placed.
        J oc \<Longrightarrow> w \<noteq> [] \<Longrightarrow> set w \<subseteq> S \<Longrightarrow> int (length w) \<le> permutation_limit \<Longrightarrow>
        starting_location_for_state gaps (state oc) = Some start_loc \<Longrightarrow>
        enumerate_best_order w (Some start_loc)
          (if gaps = [] then None else Some (end_location (last gaps))) permutation_limit = Inr found \<Longrightarrow>
        assign_order_to_gaps (fst found) gaps gap_labels tolerance (state oc) = Some placed \<Longrightarrow>
        J (commit (fst found) (fst (snd found)) (snd (snd found))
             (fst placed) (fst (snd placed)) (snd (snd placed)) oc)"
  shows "J orch'"
  using run J sub commit
proof (induction gaps gap_labels max_distance permutation_limit tolerance resolution_minutes
         optional orch rule: optional_loop.induct)
  case (1 gaps gap_labels max_distance permutation_limit tolerance resolution_minutes optional orch)
  note run = "1.prems"(1) and J = "1.prems"(2) and sub = "1.prems"(3) and commit = "1.prems"(4)
  from run obtain r where st: "optional_step gaps gap_labels max_distance permutation_limit tolerance
      resolution_minutes optional orch = Inr r"
    by (auto simp: optional_loop.simps [of gaps gap_labels max_distance permutation_limit tolerance
          resolution_minutes optional orch] split: sum.splits)
  obtain cont o1 where r: "r = (cont, o1)" by (cases r)
  have J1: "J o1"
    apply (rule optional_step_invariant [where J = J and S = S, OF st [unfolded r] J sub])
     apply (erule drop)
    apply (erule commit; assumption)
    done
  show ?case
  proof (cases cont)
    case True
    with run st r have rec: "optional_loop gaps gap_labels max_distance permutation_limit tolerance
        resolution_minutes optional o1 = Inr orch'"
      by (simp add: optional_loop.simps [of gaps gap_labels max_distance permutation_limit tolerance
          resolution_minutes optional orch])
    from True r have c: "fst r" by simp
    from "1.IH" [OF st c] rec J1 sub commit r show ?thesis by simp
  next
    case False
    with run st r have "orch' = o1"
      by (simp add: optional_loop.simps [of gaps gap_labels max_distance permutation_limit tolerance
          resolution_minutes optional orch])
    with J1 show ?thesis by simp
  qed
qed

lemma schedule_suggestions_result:
  assumes run: "schedule_suggestions suggestions gaps max_distance permutation_limit tolerance
                  resolution_minutes = Inr r"
    and init: "J (initial_orch (filter (is_mandatory tolerance) suggestions)
                    (filter (\<lambda>s. s \<notin> set (filter (is_mandatory tolerance) suggestions)) suggestions))"
    and drop: "\<And>c oc. J oc \<Longrightarrow> J (drop_candidate c oc)"
    and commit: "\<And>w oc start_loc found placed.
        J oc \<Longrightarrow> w \<noteq> [] \<Longrightarrow> set w \<subseteq> set suggestions \<Longrightarrow> int (length w) \<le> permutation_limit \<Longrightarrow>
        starting_location_for_state gaps (state oc) = Some start_loc \<Longrightarrow>
        enumerate_best_order w (Some start_loc)
          (if gaps = [] then None else Some (end_location (last gaps))) permutation_limit = Inr found \<Longrightarrow>
        assign_order_to_gaps (fst found) gaps (resolve_gap_labels gaps) tolerance (state oc) = Some placed \<Longrightarrow>
        J (commit (fst found) (fst (snd found)) (snd (snd found))
             (fst placed) (fst (snd placed)) (snd (snd placed)) oc)"
  shows "r = infeasible_result suggestions 0 \<or>
         r = infeasible_result suggestions (total_gap_minutes gaps) \<or>
         (\<exists>orch. J orch \<and> r = finish gaps tolerance orch)"
proof -
  let ?mand = "filter (is_mandatory tolerance) suggestions"
  let ?opt = "filter (\<lambda>s. s \<notin> set ?mand) suggestions"
  let ?o0 = "initial_orch ?mand ?opt"
  let ?mr = "filter (\<lambda>s. s \<in> set (remaining ?o0)) ?mand"
  let ?gl = "resolve_gap_labels gaps"
  let ?first = "if ?mr \<noteq> [] then schedule_group gaps ?gl permutation_limit tolerance ?mr ?o0
                else Inr (True, ?o0)"
  show ?thesis
  proof (cases "gaps = [] \<or> sum_list (map duration ?mand) > total_gap_minutes gaps + tolerance")
    case True
    with run show ?thesis by (auto simp: schedule_suggestions_def Let_def split: if_splits)
  next
    case False
    with run obtain r1 where r1: "?first = Inr r1"
      by (auto simp: schedule_suggestions_def Let_def split: if_splits sum.splits)
    obtain ok1 o1 where r1': "r1 = (ok1, o1)" by (cases r1)
    have mrS: "set ?mr \<subseteq> set suggestions" by auto
    have J1: "J o1"
    proof (cases "?mr \<noteq> []")
      case True
      with r1 r1' have "schedule_group gaps ?gl permutation_limit tolerance ?mr ?o0 = Inr (ok1, o1)"
        by simp
      then show ?thesis
        apply (rule schedule_group_invariant [where J = J and S = "set suggestions", OF _ init mrS])
         apply (erule drop)
        apply (erule commit; assumption)
        done
    next
      case False
      with r1 r1' init show ?thesis by simp
    qed
    show ?thesis
    proof (cases ok1)
      case no: False
      with run False r1 r1' show ?thesis
        by (auto simp: schedule_suggestions_def Let_def split: if_splits sum.splits)
    next
      case True
      with run False r1 r1' obtain orch where
        loop: "optional_loop gaps ?gl max_distance permutation_limit tolerance resolution_minutes
                 ?opt o1 = Inr orch" and res: "r = finish gaps tolerance orch"
        by (auto simp: schedule_suggestions_def Let_def split: if_splits sum.splits)
      have optS: "set ?opt \<subseteq> set suggestions" by auto
      have "J orch"
        apply (rule optional_loop_invariant [where J = J and S = "set suggestions", OF loop J1 optS])
         apply (erule drop)
        apply (erule commit; assumption)
        done
      with res show ?thesis by blast
    qed
  qed
qed

subsection \<open>Capacity conservation\<close>

lemma fresh_usage_zero: "usage_get (fresh_usage gaps) k = 0"
proof -
  have "map_of (map (\<lambda>gap. (gap_id gap, 0::real)) gaps) k = None \<or>
        map_of (map (\<lambda>gap. (gap_id gap, 0::real)) gaps) k = Some 0"
    by (induction gaps) auto
  then show ?thesis by (auto simp: usage_get_def fresh_usage_def)
qed
















lemmas placement_defs = assign_order_to_gaps_def initial_placement_def fresh_usage_def
  allocate_suggestion.simps place_step_def current_gap_def usage_get_def preference_blocks_def
  ensure_gap_exit_ok_def leave_gap_def shift_to_next_gap_def state_of_def gap_start_label_def
  gap_end_label_def Let_def is_mandatory_def MANDATORY_NEED_THRESHOLD_def HOME_LABEL_def







subsection \<open>What the blocks of a result come from\<close>

lemma preference_blocks_unsupported:
  "unsupported_preference s \<Longrightarrow>
     preference_blocks gaps gap_labels tolerance s is_last q gap cursor left"
  by (auto simp: unsupported_preference_def preference_blocks_def split: option.splits)

lemma preference_blocks_near_home:
  assumes "\<not> preference_blocks gaps gap_labels tolerance s is_last q gap cursor left"
    and "near_home_optional tolerance s"
  shows "(gap_index q = 0 \<and> current_cursor q = None) \<or> int (gap_index q) = int (length gaps) - 1"
proof -
  obtain sl el where l: "(case gap_labels (gap_id gap) of Some pr \<Rightarrow> pr | None \<Rightarrow> ([], [])) = (sl, el)"
    by (cases "case gap_labels (gap_id gap) of Some pr \<Rightarrow> pr | None \<Rightarrow> ([], [])")
  from assms show ?thesis
    by (auto simp: preference_blocks_def near_home_optional_def Let_def l split: if_splits)
qed

lemma allocate_suggestion_unsupported:
  assumes "unsupported_preference s"
  shows "fst (allocate_suggestion gaps gap_labels tolerance s is_last p) = False"
proof (rule ccontr)
  assume "fst (allocate_suggestion gaps gap_labels tolerance s is_last p) \<noteq> False"
  then obtain p' where "allocate_suggestion gaps gap_labels tolerance s is_last p = (True, p')"
    by (cases "allocate_suggestion gaps gap_labels tolerance s is_last p") auto
  from allocate_suggestion_rule [where P = "\<lambda>q. True", OF this]
  obtain q where "place_step gaps gap_labels tolerance s is_last q = Placed p'" by blast
  from place_step_Placed [OF this] preference_blocks_unsupported [OF assms]
  show False by (auto simp: Let_def)
qed

lemma allocate_all_supported:
  "allocate_all gaps gap_labels tolerance order p = Some p' \<Longrightarrow>
     \<forall>s\<in>set order. \<not> unsupported_preference s"
proof (induction order arbitrary: p)
  case Nil
  show ?case by simp
next
  case (Cons s rest)
  obtain ok q where a: "allocate_suggestion gaps gap_labels tolerance s (rest = []) p = (ok, q)"
    by (cases "allocate_suggestion gaps gap_labels tolerance s (rest = []) p")
  with Cons.prems have ok: ok and rec: "allocate_all gaps gap_labels tolerance rest q = Some p'"
    by (simp_all split: if_splits)
  from a ok allocate_suggestion_unsupported [of s gaps gap_labels tolerance "rest = []" p]
  have "\<not> unsupported_preference s" by auto
  with Cons.IH [OF rec] show ?case by simp
qed

lemma assign_order_to_gaps_supported:
  assumes "assign_order_to_gaps order gaps gap_labels tolerance initial_state = Some placed"
  shows "\<forall>s\<in>set order. \<not> unsupported_preference s"
proof (cases "order = []")
  case True
  then show ?thesis by simp
next
  case False
  with assms obtain p where "allocate_all gaps gap_labels tolerance order
      (initial_placement gaps initial_state) = Some p"
    by (auto simp: assign_order_to_gaps_def split: option.splits)
  then show ?thesis by (rule allocate_all_supported)
qed

lemma assign_order_to_gaps_gap_index:
  assumes run: "assign_order_to_gaps order gaps gap_labels tolerance initial_state = Some (blocks, st, logs)"
    and ne: "order \<noteq> []" "gaps \<noteq> []"
  shows "1 \<le> gap_index st"
proof -
  from run ne obtain p where all: "allocate_all gaps gap_labels tolerance order
      (initial_placement gaps initial_state) = Some p"
    by (auto simp: assign_order_to_gaps_def split: option.splits)
  show ?thesis
  proof (cases "current_gap gaps (gap_index p)")
    case None
    with run ne all have "st = state_of p" by (simp add: assign_order_to_gaps_def)
    moreover from None ne have "1 \<le> gap_index p"
      by (cases gaps) (auto simp: current_gap_def split: if_splits)
    ultimately show ?thesis by (simp add: state_of_def)
  next
    case (Some gap)
    with run ne all obtain info where "st = state_of (leave_gap tolerance gap info p)"
      by (auto simp: assign_order_to_gaps_def Let_def split: option.splits)
    then show ?thesis by (simp add: state_of_def leave_gap_index)
  qed
qed

lemma assign_order_to_gaps_blocks:
  assumes run: "assign_order_to_gaps order gaps gap_labels tolerance initial_state = Some (blocks, st, logs)"
    and ne: "gaps \<noteq> []"
    and fresh: "initial_state = None \<or> (\<exists>s0. initial_state = Some s0 \<and> 1 \<le> gap_index s0)"
  shows "\<forall>b\<in>set blocks. \<exists>s\<in>set order. placed_as gaps tolerance b s"
proof (cases "order = []")
  case True
  with run show ?thesis by (simp add: assign_order_to_gaps_def)
next
  case False
  let ?P = "\<lambda>q :: Placement.
      (gap_index q = 0 \<and> current_cursor q = None \<longrightarrow>
         usage_get (gap_usage q) (gap_id (gaps ! 0)) = 0) \<and>
      (\<forall>b\<in>set (schedule q). \<exists>s\<in>set order. placed_as gaps tolerance b s)"
  have "\<exists>p'. ?P p' \<and> (blocks, st, logs) = (schedule p', state_of p', movement_logs p')"
  proof (rule assign_order_to_gaps_rule [where P = ?P, OF run False])
    from fresh show "?P (initial_placement gaps initial_state)"
    proof
      assume "initial_state = None"
      then show ?thesis by (simp add: initial_placement_def fresh_usage_zero)
    next
      assume "\<exists>s0. initial_state = Some s0 \<and> 1 \<le> gap_index s0"
      then show ?thesis by (auto simp: initial_placement_def)
    qed
  next
    fix s is_last and q q' :: Placement
    assume "?P q" "place_step gaps gap_labels tolerance s is_last q = Advance q'"
    then show "?P q'" using place_step_Advance by blast
  next
    fix s is_last and q q' :: Placement
    assume sin: "s \<in> set order" and P: "?P q"
      and pl: "place_step gaps gap_labels tolerance s is_last q = Placed q'"
    from place_step_Placed [OF pl] obtain gap where
      gap: "current_gap gaps (gap_index q) = Some gap" and
      rest: "let cursor = (case current_cursor q of Some c \<Rightarrow> c | None \<Rightarrow> start_location gap);
               used = usage_get (gap_usage q) (gap_id gap);
               remaining = gap_duration gap - used;
               t = snd (travel_minutes_between cursor (location s))
           in tolerance < remaining \<and>
              \<not> preference_blocks gaps gap_labels tolerance s is_last q gap cursor remaining \<and>
              t + duration s \<le> remaining + tolerance \<and>
              gap_usage q' = (gap_usage q)(gap_id gap \<mapsto> used + charged tolerance t + duration s) \<and>
              schedule q' = schedule q @
                [\<lparr>block_suggestion_id = suggestion_id s, block_gap_id = gap_id gap,
                  start_offset = used + charged tolerance t, block_duration = duration s,
                  block_location = location s\<rparr>] \<and>
              gap_index q' = gap_index q \<and>
              current_cursor q' = Some (location s) \<and>
              current_label q' = Some (suggestion_id s)"
      by blast
    define cursor where "cursor = (case current_cursor q of Some c \<Rightarrow> c | None \<Rightarrow> start_location gap)"
    define used where "used = usage_get (gap_usage q) (gap_id gap)"
    define t where "t = snd (travel_minutes_between cursor (location s))"
    let ?b = "\<lparr>block_suggestion_id = suggestion_id s, block_gap_id = gap_id gap,
                  start_offset = used + charged tolerance t, block_duration = duration s,
                  block_location = location s\<rparr>"
    from rest have nb: "\<not> preference_blocks gaps gap_labels tolerance s is_last q gap cursor
                           (gap_duration gap - used)"
      and sc: "schedule q' = schedule q @ [?b]"
      and cur: "current_cursor q' = Some (location s)"
      by (simp_all add: Let_def cursor_def used_def t_def)
    from gap have g: "gap = gaps ! gap_index q" and lt: "gap_index q < length gaps"
      by (auto simp: current_gap_def split: if_splits)
    have "placed_as gaps tolerance ?b s"
    proof -
      have "at_first_gap_start gaps tolerance s ?b \<or> in_last_gap gaps ?b"
        if nh: "near_home_optional tolerance s"
      proof -
        from preference_blocks_near_home [OF nb nh]
        show ?thesis
        proof
          assume a: "gap_index q = 0 \<and> current_cursor q = None"
          with P g have "used = 0" by (simp add: used_def)
          moreover from a have "cursor = start_location gap" by (simp add: cursor_def)
          ultimately have "at_first_gap_start gaps tolerance s ?b"
            using a g by (simp add: at_first_gap_start_def t_def)
          then show ?thesis ..
        next
          assume "int (gap_index q) = int (length gaps) - 1"
          then have "gap_index q = length gaps - 1" by simp
          with g ne have "gap = last gaps" by (simp add: last_conv_nth)
          then have "in_last_gap gaps ?b" by (simp add: in_last_gap_def)
          then show ?thesis ..
        qed
      qed
      then show ?thesis by (simp add: placed_as_def)
    qed
    with sin P show "?P q'" by (auto simp: sc cur)
  next
    fix q :: Placement and gap info
    assume P: "?P q" and gap: "current_gap gaps (gap_index q) = Some gap"
      and ex: "ensure_gap_exit_ok gap_labels tolerance (gap_usage q) gap
          (case current_cursor q of Some c \<Rightarrow> c | None \<Rightarrow> start_location gap)
          (current_label q) = Some info"
    from leave_gap_exit [OF ex] P show "?P (leave_gap tolerance gap info q)"
      by (simp add: Let_def)
  qed
  then show ?thesis by auto
qed

lemma set_remove1_insert: "set xs \<subseteq> set (remove1 y xs) \<union> {y}"
  by (induction xs) auto

lemma set_foldl_remove1: "set xs \<subseteq> set (foldl (\<lambda>r s. remove1 s r) xs ys) \<union> set ys"
proof (induction ys arbitrary: xs)
  case Nil
  show ?case by simp
next
  case (Cons y ys)
  have "set xs \<subseteq> set (remove1 y xs) \<union> {y}" by (rule set_remove1_insert)
  with Cons.IH [of "remove1 y xs"] show ?case by auto
qed

lemma schedule_suggestions_blocks:
  assumes run: "schedule_suggestions suggestions gaps max_distance permutation_limit tolerance
                  resolution_minutes = Inr r"
  shows "set suggestions \<subseteq> set (dropped_suggestions r) \<union> set (ordered_suggestions r) \<and>
         set (ordered_suggestions r) \<subseteq> set suggestions \<and>
         (\<forall>x\<in>set (ordered_suggestions r). \<not> unsupported_preference x) \<and>
         (\<forall>b\<in>set (scheduled_blocks r). \<exists>x\<in>set (ordered_suggestions r). placed_as gaps tolerance b x)"
proof (cases "gaps = []")
  case True
  with run show ?thesis by (auto simp: schedule_suggestions_def infeasible_result_def)
next
  case ne: False
  let ?J = "\<lambda>oc :: Orch.
      set suggestions \<subseteq> set (remaining oc) \<union> set (dropped_total oc) \<union> set (ordered_total oc) \<and>
      set (ordered_total oc) \<subseteq> set suggestions \<and>
      (\<forall>x\<in>set (ordered_total oc). \<not> unsupported_preference x) \<and>
      (\<forall>b\<in>set (scheduled_blocks_total oc). \<exists>x\<in>set (ordered_total oc). placed_as gaps tolerance b x) \<and>
      (state oc = None \<or> (\<exists>s0. state oc = Some s0 \<and> 1 \<le> gap_index s0))"
  have "r = infeasible_result suggestions 0 \<or>
         r = infeasible_result suggestions (total_gap_minutes gaps) \<or>
         (\<exists>orch. ?J orch \<and> r = finish gaps tolerance orch)"
  proof (rule schedule_suggestions_result [where J = ?J, OF run])
    show "?J (initial_orch (filter (is_mandatory tolerance) suggestions)
                (filter (\<lambda>s. s \<notin> set (filter (is_mandatory tolerance) suggestions)) suggestions))"
      by (auto simp: initial_orch_def)
  next
    fix c and oc :: Orch
    assume J: "?J oc"
    have "set (remaining oc) \<subseteq> set (remove1 c (remaining oc)) \<union> {c}"
      by (rule set_remove1_insert)
    with J show "?J (drop_candidate c oc)" by (auto simp: drop_candidate_def)
  next
    fix w :: "Suggestion list" and oc :: Orch and start_loc :: Coordinate
      and found :: "Suggestion list \<times> real \<times> nat" and placed
    assume J: "?J oc" and wne: "w \<noteq> []" and wS: "set w \<subseteq> set suggestions"
      and en: "enumerate_best_order w (Some start_loc)
                 (if gaps = [] then None else Some (end_location (last gaps))) permutation_limit
               = Inr found"
      and as: "assign_order_to_gaps (fst found) gaps (resolve_gap_labels gaps) tolerance (state oc)
                 = Some placed"
    obtain bl st' lg where p: "placed = (bl, st', lg)" by (cases placed)
    from enumerate_best_order_perm [OF en] have m: "mset (fst found) = mset w" .
    then have sw: "set (fst found) = set w" by (rule mset_eq_setD)
    with wne have fne: "fst found \<noteq> []" by auto
    from J have fresh: "state oc = None \<or> (\<exists>s0. state oc = Some s0 \<and> 1 \<le> gap_index s0)" by simp
    note sup = assign_order_to_gaps_supported [OF as]
    note blk = assign_order_to_gaps_blocks [OF as [unfolded p] ne fresh]
    note idx = assign_order_to_gaps_gap_index [OF as [unfolded p] fne ne]
    note rm = set_foldl_remove1 [of "remaining oc" "fst found"]
    let ?c = "commit (fst found) (fst (snd found)) (snd (snd found))
             (fst placed) (fst (snd placed)) (snd (snd placed)) oc"
    have 1: "set suggestions \<subseteq> set (remaining ?c) \<union> set (dropped_total ?c) \<union> set (ordered_total ?c)"
      using J rm by (auto simp: commit_def)
    have 2: "set (ordered_total ?c) \<subseteq> set suggestions"
      using J sw wS by (auto simp: commit_def)
    have 3: "\<forall>x\<in>set (ordered_total ?c). \<not> unsupported_preference x"
      using J sup by (auto simp: commit_def)
    have 4: "\<forall>b\<in>set (scheduled_blocks_total ?c). \<exists>x\<in>set (ordered_total ?c). placed_as gaps tolerance b x"
    proof
      fix b assume "b \<in> set (scheduled_blocks_total ?c)"
      then have "b \<in> set (scheduled_blocks_total oc) \<or> b \<in> set bl" by (auto simp: commit_def p)
      then show "\<exists>x\<in>set (ordered_total ?c). placed_as gaps tolerance b x"
      proof
        assume "b \<in> set (scheduled_blocks_total oc)"
        with J obtain x where "x \<in> set (ordered_total oc)" "placed_as gaps tolerance b x" by blast
        then show ?thesis by (auto simp: commit_def)
      next
        assume "b \<in> set bl"
        with blk obtain x where "x \<in> set (fst found)" "placed_as gaps tolerance b x" by blast
        then show ?thesis by (auto simp: commit_def)
      qed
    qed
    have 5: "state ?c = None \<or> (\<exists>s0. state ?c = Some s0 \<and> 1 \<le> gap_index s0)"
      using idx by (simp add: commit_def p)
    from 1 2 3 4 5 show "?J ?c" by blast
  qed
  then consider (a) "r = infeasible_result suggestions 0"
    | (b) "r = infeasible_result suggestions (total_gap_minutes gaps)"
    | (c) orch where "?J orch" "r = finish gaps tolerance orch"
    by blast
  then show ?thesis
  proof cases
    case a
    then show ?thesis by (simp add: infeasible_result_def)
  next
    case b
    then show ?thesis by (simp add: infeasible_result_def)
  next
    case c
    note J = c(1) and r = c(2)
    have "set suggestions \<subseteq> set (dropped_suggestions r) \<union> set (ordered_suggestions r)"
      using J by (auto simp: r finish_def)
    moreover have "set (ordered_suggestions r) \<subseteq> set suggestions"
      using J by (simp add: r finish_def)
    moreover have "\<forall>x\<in>set (ordered_suggestions r). \<not> unsupported_preference x"
      using J by (simp add: r finish_def)
    moreover have "\<forall>b\<in>set (scheduled_blocks r). \<exists>x\<in>set (ordered_suggestions r). placed_as gaps tolerance b x"
      using J by (simp add: r finish_def)
    ultimately show ?thesis by blast
  qed
qed

lemma enumerate_best_order_error:
  assumes "enumerate_best_order xs s e permutation_limit = Inl err"
  shows "err = ValueError"
proof (cases "xs \<noteq> [] \<and> int (length xs) \<le> permutation_limit")
  case True
  then have "xs \<noteq> []" "int (length xs) \<le> permutation_limit" by simp_all
  from enumerate_best_order_search [OF this, of s e] assms show ?thesis by auto
next
  case False
  with assms show ?thesis by (auto simp: enumerate_best_order_def Let_def split: if_splits)
qed

lemma try_working_total:
  "\<exists>r. try_working gaps gap_labels permutation_limit tolerance working orch = Inr r"
proof (induction gaps gap_labels permutation_limit tolerance working orch rule: try_working.induct)
  case (1 gaps gap_labels permutation_limit tolerance working orch)
  show ?case
  proof (cases "working = []")
    case True
    then have "try_working gaps gap_labels permutation_limit tolerance working orch = Inr (False, orch)"
      by (simp add: try_working.simps)
    then show ?thesis by blast
  next
    case ne: False
    show ?thesis
    proof (cases "starting_location_for_state gaps (state orch)")
      case None
      with ne have "try_working gaps gap_labels permutation_limit tolerance working orch = Inr (False, orch)"
        by (simp add: try_working.simps)
      then show ?thesis by blast
    next
      case (Some start_loc)
      let ?end = "if gaps = [] then None else Some (end_location (last gaps))"
      show ?thesis
      proof (cases "enumerate_best_order working (Some start_loc) ?end permutation_limit")
        case (Inl e)
        from enumerate_best_order_error [OF Inl] have e: "e = ValueError" .
        from "1.IH"(1) [OF ne Some Inl e] ne Some Inl e show ?thesis
          by (simp add: try_working.simps [of gaps gap_labels permutation_limit tolerance working])
      next
        case (Inr found)
        show ?thesis
        proof (cases "assign_order_to_gaps (fst found) gaps gap_labels tolerance (state orch)")
          case None
          from "1.IH"(2) [OF ne Some Inr None] ne Some Inr None show ?thesis
            by (simp add: try_working.simps [of gaps gap_labels permutation_limit tolerance working])
        next
          case (Some placed)
          with ne \<open>starting_location_for_state gaps (state orch) = Some start_loc\<close> Inr
          have "try_working gaps gap_labels permutation_limit tolerance working orch =
                  Inr (True, commit (fst found) (fst (snd found)) (snd (snd found))
                         (fst placed) (fst (snd placed)) (snd (snd placed)) orch)"
            by (simp add: try_working.simps [of gaps gap_labels permutation_limit tolerance working])
          then show ?thesis by blast
        qed
      qed
    qed
  qed
qed

lemma shrink_batch_total:
  "0 \<le> permutation_limit \<Longrightarrow> \<exists>r. shrink_batch permutation_limit batch orch = Inr r"
proof (induction permutation_limit batch orch rule: shrink_batch.induct)
  case (1 permutation_limit batch orch)
  show ?case
  proof (cases "int (length batch) > permutation_limit")
    case False
    then have "shrink_batch permutation_limit batch orch = Inr (batch, orch)"
      by (simp add: shrink_batch.simps)
    then show ?thesis by blast
  next
    case True
    with "1.prems" have ne: "batch \<noteq> []" by auto
    from "1.IH" [OF True ne "1.prems"] True ne show ?thesis
      by (simp add: shrink_batch.simps [of permutation_limit batch])
  qed
qed

lemma schedule_group_total:
  assumes "0 \<le> permutation_limit"
  shows "\<exists>r. schedule_group gaps gap_labels permutation_limit tolerance grp orch = Inr r"
proof -
  let ?batch = "filter (\<lambda>s. s \<in> set (remaining orch)) grp"
  from shrink_batch_total [OF assms, of "sort_key (\<lambda>s. - score s) ?batch" orch]
  obtain sh where sh: "shrink_batch permutation_limit (sort_key (\<lambda>s. - score s) ?batch) orch = Inr sh"
    by blast
  from try_working_total [of gaps gap_labels permutation_limit tolerance "fst sh" "snd sh"]
  show ?thesis by (auto simp: schedule_group_def Let_def sh)
qed

lemma optional_step_total:
  assumes lim: "0 \<le> permutation_limit" and res: "resolution_minutes \<noteq> 0"
  shows "\<exists>r. optional_step gaps gap_labels max_distance permutation_limit tolerance
               resolution_minutes optional orch = Inr r"
proof -
  let ?cands = "filter (\<lambda>s. s \<in> set (remaining orch)) optional"
  let ?cap = "remaining_capacity gaps (state orch) tolerance"
  have "\<exists>chosen. greedy_select_candidates double_add double_div ?cands gaps max_distance (Some ?cap)
      tolerance resolution_minutes = Inr chosen"
    using res by (cases "?cap \<le> tolerance") (simp_all add: greedy_select_candidates_def Let_def)
  then obtain chosen where ch: "greedy_select_candidates double_add double_div ?cands gaps max_distance (Some ?cap)
      tolerance resolution_minutes = Inr chosen" by blast
  let ?sel = "sort_key (\<lambda>s. - score s) chosen"
  let ?loc = "filter (\<lambda>s. has_preference s \<and> s \<in> set (remaining orch)) ?sel"
  from schedule_group_total [OF lim, of gaps gap_labels tolerance ?loc orch]
  obtain r1 where r1: "schedule_group gaps gap_labels permutation_limit tolerance ?loc orch = Inr r1"
    by blast
  let ?flex1 = "filter (\<lambda>s. \<not> has_preference s \<and> s \<in> set (remaining (snd r1))) ?sel"
  let ?flex0 = "filter (\<lambda>s. \<not> has_preference s \<and> s \<in> set (remaining orch)) ?sel"
  from schedule_group_total [OF lim, of gaps gap_labels tolerance ?flex1 "snd r1"]
  obtain r2 where r2: "schedule_group gaps gap_labels permutation_limit tolerance ?flex1 (snd r1) = Inr r2"
    by blast
  from schedule_group_total [OF lim, of gaps gap_labels tolerance ?flex0 orch]
  obtain r3 where r3: "schedule_group gaps gap_labels permutation_limit tolerance ?flex0 orch = Inr r3"
    by blast
  from ch r1 r2 r3 show ?thesis
    by (auto simp: optional_step_def Let_def)
qed

lemma optional_loop_total:
  assumes lim: "0 \<le> permutation_limit" and res: "resolution_minutes \<noteq> 0"
  shows "\<exists>r. optional_loop gaps gap_labels max_distance permutation_limit tolerance
               resolution_minutes optional orch = Inr r"
  using assms
proof (induction gaps gap_labels max_distance permutation_limit tolerance resolution_minutes
         optional orch rule: optional_loop.induct)
  case (1 gaps gap_labels max_distance permutation_limit tolerance resolution_minutes optional orch)
  from optional_step_total [OF "1.prems", of gaps gap_labels max_distance tolerance optional orch]
  obtain r where st: "optional_step gaps gap_labels max_distance permutation_limit tolerance
      resolution_minutes optional orch = Inr r" by blast
  show ?case
  proof (cases "fst r")
    case True
    from "1.IH" [OF st True "1.prems"] st True show ?thesis
      by (auto simp: optional_loop.simps [of gaps gap_labels max_distance permutation_limit tolerance
          resolution_minutes optional orch])
  next
    case False
    with st show ?thesis
      by (auto simp: optional_loop.simps [of gaps gap_labels max_distance permutation_limit tolerance
          resolution_minutes optional orch])
  qed
qed

lemma schedule_suggestions_total:
  assumes lim: "0 \<le> permutation_limit" and res: "resolution_minutes \<noteq> 0"
  shows "\<exists>r. schedule_suggestions suggestions gaps max_distance permutation_limit tolerance
               resolution_minutes = Inr r"
proof -
  let ?mand = "filter (is_mandatory tolerance) suggestions"
  let ?opt = "filter (\<lambda>s. s \<notin> set ?mand) suggestions"
  let ?o0 = "initial_orch ?mand ?opt"
  let ?mr = "filter (\<lambda>s. s \<in> set (remaining ?o0)) ?mand"
  let ?gl = "resolve_gap_labels gaps"
  from schedule_group_total [OF lim, of gaps ?gl tolerance ?mr ?o0]
  obtain r1 where r1: "schedule_group gaps ?gl permutation_limit tolerance ?mr ?o0 = Inr r1" by blast
  from optional_loop_total [OF lim res, of gaps ?gl max_distance tolerance ?opt "snd r1"]
  obtain o2 where o2: "optional_loop gaps ?gl max_distance permutation_limit tolerance
      resolution_minutes ?opt (snd r1) = Inr o2" by blast
  from optional_loop_total [OF lim res, of gaps ?gl max_distance tolerance ?opt ?o0]
  obtain o3 where o3: "optional_loop gaps ?gl max_distance permutation_limit tolerance
      resolution_minutes ?opt ?o0 = Inr o3" by blast
  from r1 o2 o3 show ?thesis
    by (auto simp: schedule_suggestions_def Let_def)
qed

subsection \<open>A day with two gaps\<close>

lemma day_labels_resolve: "resolve_gap_labels [morning_gap, evening_gap] = day_labels"
  by (simp add: resolve_gap_labels_def morning_gap_def evening_gap_def label_or_def HOME_LABEL_def
      day_labels_def)

lemma chore_enumerate:
  "enumerate_best_order [chore] (Some (0, 0)) (Some (0, 0)) 6 = Inr ([chore], 0, 1)"
  by (simp add: enumerate_best_order_def itertools_permutations_single best_step_def
      permutation_cost_def chore_def)

lemma chore_assign:
  "assign_order_to_gaps [chore] [morning_gap, evening_gap] day_labels (1 / 1000000) None =
     Some ([hd day_blocks], after_chore, [])"
  by (simp add: placement_defs chore_def morning_gap_def evening_gap_def day_labels_def
      after_chore_def day_blocks_def)




lemma chore_group:
  "schedule_group [morning_gap, evening_gap] day_labels 6 (1 / 1000000) [chore]
      (initial_orch [chore] optional) =
    Inr (True, commit [chore] 0 1 [hd day_blocks] after_chore [] (initial_orch [chore] optional))"
proof -
  have g: "start_location morning_gap = (0, 0)" "end_location evening_gap = (0, 0)"
    by (simp_all add: morning_gap_def evening_gap_def)
  show ?thesis
    by (simp add: schedule_group_def initial_orch_def shrink_batch.simps try_working.simps
        starting_location_for_state_def g chore_enumerate chore_assign Let_def)
qed


lemma errand_select:
  "greedy_select_candidates double_add double_div [errand] [morning_gap, evening_gap] 3 (Some 3)
     (1 / 1000000) 1 = Inr [errand]"
  by (simp add: greedy_select_candidates_def item_weight_def double_div_def double_add_def
      round_to_double_1 round_to_double_3 py_round_int_numeral py_round_1
      errand_def dp_item_def dp_step_def Let_def upt_rec [of _ "numeral _"]
      numeral_3_eq_3)

lemma errand_enumerate:
  "enumerate_best_order [errand] (Some (0, 0)) (Some (0, 0)) 6 = Inr ([errand], 0, 1)"
  by (simp add: enumerate_best_order_def itertools_permutations_single best_step_def
      permutation_cost_def errand_def)

lemma errand_assign:
  "assign_order_to_gaps [errand] [morning_gap, evening_gap] day_labels (1 / 1000000)
     (Some after_chore) = None"
  by (simp add: placement_defs errand_def morning_gap_def evening_gap_def day_labels_def
      after_chore_def)

lemma errand_run:
  "schedule_suggestions [chore, errand] [morning_gap, evening_gap] 3 6 (1 / 1000000) 1 =
     Inr \<lparr>ordered_suggestions = [chore], scheduled_blocks = [hd day_blocks],
          travel_cost = 0, dropped_suggestions = [errand], unused_gap_time = 3,
          permutations_evaluated = 1, allocated_minutes = [''A'' \<mapsto> 1], movement_log = []\<rparr>"
proof -
  have m: "is_mandatory (1 / 1000000) chore" "\<not> is_mandatory (1 / 1000000) errand"
    by (simp_all add: is_mandatory_def MANDATORY_NEED_THRESHOLD_def chore_def errand_def)
  have ne: "chore \<noteq> errand" "errand \<noteq> chore"
    by (simp_all add: chore_def errand_def)
  have d: "duration chore = 1" "score errand = 1" "has_preference errand"
    by (simp_all add: chore_def errand_def has_preference_def)
  have g: "gap_duration morning_gap = 1" "gap_duration evening_gap = 3"
    "start_location morning_gap = (0, 0)" "end_location morning_gap = (0, 0)"
    "start_location evening_gap = (0, 0)" "end_location evening_gap = (0, 0)"
    "gap_id morning_gap = ''g1''" "gap_id evening_gap = ''g2''"
    by (simp_all add: morning_gap_def evening_gap_def)
  have st: "gap_index after_chore = 1" "current_cursor after_chore = None"
    "gap_usage after_chore = [''g2'' \<mapsto> 0, ''g1'' \<mapsto> 1]"
    by (simp_all add: after_chore_def)
  show ?thesis
    apply (simp add: schedule_suggestions_def day_labels_resolve m ne total_gap_minutes_def d g
        chore_group Let_def)
    apply (simp add: initial_orch_def commit_def optional_loop.simps optional_step_def ne
        remaining_capacity_def usage_get_def st g errand_select d drop_candidate_def
        schedule_group_def shrink_batch.simps try_working.simps starting_location_for_state_def
        errand_enumerate errand_assign Let_def)
    apply (simp add: finish_def remaining_capacity_def usage_get_def st g day_blocks_def)
    done
qed

subsection \<open>Unsupported location preferences\<close>

text \<open>
  Claim C7. A suggestion of the input whose stored (normalized) location preference is not
  empty and not \<^verbatim>\<open>near_home\<close> is never placed. For a permutation limit that is not negative
  and a resolution that is not zero the run returns a result; in every result the
  suggestion is among the dropped ones and not among the ordered ones, every block was made
  for an ordered suggestion other than it, and when the suggestion ids of the input are
  pairwise distinct no block carries its id.
\<close>

theorem unsupported_preference_is_dropped:
  assumes s: "s \<in> set suggestions" and u: "unsupported_preference s"
  shows "(0 \<le> permutation_limit \<and> resolution_minutes \<noteq> 0 \<longrightarrow>
            (\<exists>r. schedule_suggestions suggestions gaps max_distance permutation_limit tolerance
                    resolution_minutes = Inr r)) \<and>
         (\<forall>r. schedule_suggestions suggestions gaps max_distance permutation_limit tolerance
                 resolution_minutes = Inr r \<longrightarrow>
               s \<in> set (dropped_suggestions r) \<and> s \<notin> set (ordered_suggestions r) \<and>
               (\<forall>b\<in>set (scheduled_blocks r).
                  \<exists>x\<in>set (ordered_suggestions r). x \<noteq> s \<and> placed_as gaps tolerance b x) \<and>
               (distinct (map suggestion_id suggestions) \<longrightarrow>
                  (\<forall>b\<in>set (scheduled_blocks r). block_suggestion_id b \<noteq> suggestion_id s)))"
proof (intro conjI allI impI)
  assume "0 \<le> permutation_limit \<and> resolution_minutes \<noteq> 0"
  then show "\<exists>r. schedule_suggestions suggestions gaps max_distance permutation_limit tolerance
                    resolution_minutes = Inr r"
    using schedule_suggestions_total [of permutation_limit resolution_minutes suggestions gaps
        max_distance tolerance] by simp
next
  fix r
  assume run: "schedule_suggestions suggestions gaps max_distance permutation_limit tolerance
                 resolution_minutes = Inr r"
  from schedule_suggestions_blocks [OF run]
  have cover: "set suggestions \<subseteq> set (dropped_suggestions r) \<union> set (ordered_suggestions r)"
    and sub: "set (ordered_suggestions r) \<subseteq> set suggestions"
    and sup: "\<forall>x\<in>set (ordered_suggestions r). \<not> unsupported_preference x"
    and blk: "\<forall>b\<in>set (scheduled_blocks r). \<exists>x\<in>set (ordered_suggestions r). placed_as gaps tolerance b x"
    by simp_all
  from sup u show no: "s \<notin> set (ordered_suggestions r)" by auto
  from cover s no show "s \<in> set (dropped_suggestions r)" by auto
  show pl: "\<forall>b\<in>set (scheduled_blocks r).
                  \<exists>x\<in>set (ordered_suggestions r). x \<noteq> s \<and> placed_as gaps tolerance b x"
  proof
    fix b assume "b \<in> set (scheduled_blocks r)"
    with blk obtain x where x: "x \<in> set (ordered_suggestions r)" "placed_as gaps tolerance b x"
      by auto
    with no have "x \<noteq> s" by auto
    with x show "\<exists>x\<in>set (ordered_suggestions r). x \<noteq> s \<and> placed_as gaps tolerance b x"
      by (intro bexI [of _ x]) simp_all
  qed
  assume d: "distinct (map suggestion_id suggestions)"
  show "\<forall>b\<in>set (scheduled_blocks r). block_suggestion_id b \<noteq> suggestion_id s"
  proof
    fix bl assume "bl \<in> set (scheduled_blocks r)"
    with pl obtain x where x: "x \<in> set (ordered_suggestions r)" "x \<noteq> s"
      "placed_as gaps tolerance bl x"
      by auto
    from x(3) have id: "block_suggestion_id bl = suggestion_id x" by (simp add: placed_as_def)
    from sub x(1) have "x \<in> set suggestions" by auto
    from inj_onD [OF _ _ this s, of suggestion_id] d x(2)
    have "suggestion_id x \<noteq> suggestion_id s" by (auto simp: distinct_map)
    with id show "block_suggestion_id bl \<noteq> suggestion_id s" by simp
  qed
qed

theorem unsupported_preference_is_dropped_witness:
  "errand \<in> set [chore, errand] \<and> unsupported_preference errand \<and>
   (0::int) \<le> 6 \<and> (1::real) \<noteq> 0 \<and> distinct (map suggestion_id [chore, errand]) \<and>
   (\<exists>r. schedule_suggestions [chore, errand] [morning_gap, evening_gap] 3 6 (1 / 1000000) 1 = Inr r \<and>
        errand \<in> set (dropped_suggestions r) \<and> errand \<notin> set (ordered_suggestions r) \<and>
        (\<forall>b\<in>set (scheduled_blocks r).
           \<exists>x\<in>set (ordered_suggestions r).
             x \<noteq> errand \<and> placed_as [morning_gap, evening_gap] (1 / 1000000) b x) \<and>
        (\<forall>b\<in>set (scheduled_blocks r). block_suggestion_id b \<noteq> suggestion_id errand))"
proof -
  have s: "errand \<in> set [chore, errand]" by simp
  have u: "unsupported_preference errand" by (simp add: unsupported_preference_def errand_def)
  have d: "distinct (map suggestion_id [chore, errand])" by (simp add: chore_def errand_def)
  from unsupported_preference_is_dropped [OF s u, of 6 1 "[morning_gap, evening_gap]" 3 "1 / 1000000"]
    errand_run d s u
  show ?thesis by simp
qed

subsection \<open>Near-home placement\<close>




end
